theory Spec2Isabelle
  imports Main "HOL-Library.AList" "HOL-Library.Sublist"
begin

section \<open>The hybrid cache of foxy-mcp (\<open>CacheService\<close>)\<close>

text \<open>
  The development embeds \<open>cache.service.ts\<close> (class \<open>CacheService\<close>) together
  with the types it uses from \<open>types/index.ts\<close>.

  Conventions of the embedding:
  \<^item> Time is an integer number of milliseconds. One clock \<open>now\<close> is handed to every
    operation that reads a clock; it stands for both \<open>Date.now()\<close> (used by
    \<open>isExpired\<close>) and the clock of the \<open>lru-cache\<close> package, since only
    differences of readings are ever compared.
  \<^item> A JavaScript object used as a dictionary (\<open>Record<string, T>\<close>) is an
    association list in insertion order: \<open>o[k] = v\<close> is \<open>AList.update\<close> (replace in
    place, else append), \<open>delete o[k]\<close> is \<open>AList.delete\<close>, \<open>o[k]\<close> is
    \<open>map_of\<close>.
  \<^item> Strings are byte strings; \<open>toLowerCase\<close>, \<open>toUpperCase\<close> and \<open>trim\<close> act on
    the ASCII range.
  \<^item> The truncated MD5 digest of \<open>getUrlKey\<close> is a parameter \<open>H\<close> of every
    operation that builds a URL key.
  \<^item> Calls of the persistent store succeed, except inside the deferred writer
    \<open>syncToDisk\<close>, whose \<open>try\<close>/\<open>catch\<close> blocks are modelled by an explicit
    outcome.
\<close>

subsection \<open>Types (\<open>types/index.ts\<close>)\<close>

type_synonym OpenApiDocument = string

record CachedApiMetadata =
  apiId :: int
  projectId :: string
  name :: string
  path :: string
  httpMethod :: string  \<comment> \<open>the field \<open>method\<close> of the source\<close>
  url :: "string option"
  cachedAt :: int

record CachedApiEntry =
  document :: OpenApiDocument
  metadata :: CachedApiMetadata

datatype ApiIndexEntry = ApiIndexEntry (idx_projectId: string) (idx_apiId: int)

record CacheOptions =
  opt_enabled :: "bool option"
  opt_ttl :: "int option"
  opt_maxSize :: "int option"
  opt_persistent :: "bool option"
  opt_persistentMaxSize :: "int option"
  opt_syncInterval :: "int option"

record CacheData =
  apis :: "(string \<times> CachedApiEntry) list"
  disk_urlIndex :: "(string \<times> ApiIndexEntry) list"
  disk_nameIndex :: "(string \<times> ApiIndexEntry) list"
  disk_pathIndex :: "(string \<times> ApiIndexEntry) list"

datatype CacheSource = Memory | Disk

subsection \<open>The \<open>lru-cache\<close> package\<close>

text \<open>
  \<open>LRUCache\<close> is the class of the npm package \<open>lru-cache\<close>, a dependency of the
  repository and not part of its sources; it is modelled here from the
  package's documented behaviour. The service creates four instances, all with
  \<open>max\<close>, \<open>ttl\<close> and \<open>updateAgeOnGet: true\<close> and every other option at its
  default (\<open>allowStale\<close>, \<open>noDeleteOnStaleGet\<close>, \<open>noUpdateTTL\<close>, \<open>ttlAutopurge\<close>
  all false). The model keeps the items in recency order, most recently used
  first, each with the clock reading \<open>start\<close> of its last \<open>set\<close> or successful
  \<open>get\<close>. An item is stale when a non-zero \<open>ttl\<close> has elapsed since its \<open>start\<close>.
  \<^item> \<open>set\<close> replaces or inserts at the front and restarts the age; inserting a
    new key into a full cache first evicts the item at the back.
  \<^item> \<open>get\<close> of a stale item deletes it and returns nothing; \<open>get\<close> of a fresh
    item moves it to the front and restarts its age.
  \<^item> \<open>keys()\<close> and \<open>entries()\<close> run from the most to the least recently used
    item and pass over stale items, without touching recency.
\<close>

record ('k, 'v) LRUCache =
  lru_max :: nat
  lru_ttl :: int
  lru_items :: "('k \<times> 'v \<times> int) list"

definition lru_new :: "nat \<Rightarrow> int \<Rightarrow> ('k, 'v) LRUCache" where
  "lru_new m t = \<lparr>lru_max = m, lru_ttl = t, lru_items = []\<rparr>"

definition lru_isStale :: "('k, 'v) LRUCache \<Rightarrow> int \<Rightarrow> int \<Rightarrow> bool" where
  "lru_isStale c now start \<longleftrightarrow> lru_ttl c \<noteq> 0 \<and> start \<noteq> 0 \<and> now - start > lru_ttl c"

definition lru_start :: "('k, 'v) LRUCache \<Rightarrow> int \<Rightarrow> int" where
  "lru_start c now = (if lru_ttl c \<noteq> 0 then now else 0)"

definition lru_remove :: "'k \<Rightarrow> ('k \<times> 'v \<times> int) list \<Rightarrow> ('k \<times> 'v \<times> int) list" where
  "lru_remove k its = filter (\<lambda>it. fst it \<noteq> k) its"

definition lru_size :: "('k, 'v) LRUCache \<Rightarrow> nat" where
  "lru_size c = length (lru_items c)"

definition lru_peek :: "('k, 'v) LRUCache \<Rightarrow> 'k \<Rightarrow> 'v option" where
  "lru_peek c k = map_option fst (map_of (lru_items c) k)"

definition lru_set :: "('k, 'v) LRUCache \<Rightarrow> int \<Rightarrow> 'k \<Rightarrow> 'v \<Rightarrow> ('k, 'v) LRUCache" where
  "lru_set c now k v =
     (let its = lru_items c; it = (k, v, lru_start c now) in
      case map_of its k of
        Some old \<Rightarrow> c\<lparr>lru_items := it # lru_remove k its\<rparr>
      | None \<Rightarrow>
          if length its = lru_max c then c\<lparr>lru_items := it # butlast its\<rparr>
          else c\<lparr>lru_items := it # its\<rparr>)"

definition lru_get :: "('k, 'v) LRUCache \<Rightarrow> int \<Rightarrow> 'k \<Rightarrow> 'v option \<times> ('k, 'v) LRUCache" where
  "lru_get c now k =
     (case map_of (lru_items c) k of
        None \<Rightarrow> (None, c)
      | Some (v, start) \<Rightarrow>
          if lru_isStale c now start
          then (None, c\<lparr>lru_items := lru_remove k (lru_items c)\<rparr>)
          else (Some v, c\<lparr>lru_items := (k, v, lru_start c now) # lru_remove k (lru_items c)\<rparr>))"

definition lru_delete :: "('k, 'v) LRUCache \<Rightarrow> 'k \<Rightarrow> ('k, 'v) LRUCache" where
  "lru_delete c k = c\<lparr>lru_items := lru_remove k (lru_items c)\<rparr>"

definition lru_clear :: "('k, 'v) LRUCache \<Rightarrow> ('k, 'v) LRUCache" where
  "lru_clear c = c\<lparr>lru_items := []\<rparr>"

definition lru_entries :: "('k, 'v) LRUCache \<Rightarrow> int \<Rightarrow> ('k \<times> 'v) list" where
  "lru_entries c now =
     map (\<lambda>it. (fst it, fst (snd it)))
       (filter (\<lambda>it. \<not> lru_isStale c now (snd (snd it))) (lru_items c))"

definition lru_keys :: "('k, 'v) LRUCache \<Rightarrow> int \<Rightarrow> 'k list" where
  "lru_keys c now = map fst (lru_entries c now)"

subsection \<open>Strings\<close>

definition toLowerCase :: "string \<Rightarrow> string" where
  "toLowerCase s =
     map (\<lambda>c. let n = (of_char c :: nat) in if 65 \<le> n \<and> n \<le> 90 then char_of (n + 32) else c) s"

definition toUpperCase :: "string \<Rightarrow> string" where
  "toUpperCase s =
     map (\<lambda>c. let n = (of_char c :: nat) in if 97 \<le> n \<and> n \<le> 122 then char_of (n - 32) else c) s"

definition isSpace :: "char \<Rightarrow> bool" where
  "isSpace c \<longleftrightarrow> (of_char c :: nat) \<in> {9, 10, 11, 12, 13, 32}"

definition trim :: "string \<Rightarrow> string" where
  "trim s = rev (dropWhile isSpace (rev (dropWhile isSpace s)))"

definition startsWith :: "string \<Rightarrow> string \<Rightarrow> bool" where
  "startsWith s p = prefix p s"

definition str_includes :: "string \<Rightarrow> string \<Rightarrow> bool" where
  "str_includes s t = sublist t s"

fun digits :: "nat \<Rightarrow> string" where
  "digits n = (if n < 10 then [''0123456789'' ! n] else digits (n div 10) @ [''0123456789'' ! (n mod 10)])"

declare digits.simps [simp del]

definition numberToString :: "int \<Rightarrow> string" where
  "numberToString i = (if i < 0 then ''-'' @ digits (nat (- i)) else digits (nat i))"

subsection \<open>Cache keys\<close>

definition getApiKey :: "string \<Rightarrow> int \<Rightarrow> string" where
  "getApiKey pid aid = ''api:'' @ pid @ '':'' @ numberToString aid"

definition getUrlKey :: "(string \<Rightarrow> string) \<Rightarrow> string \<Rightarrow> string" where
  "getUrlKey H u = ''url:'' @ H u"

definition getNameKey :: "string \<Rightarrow> string \<Rightarrow> string" where
  "getNameKey pid nm = ''name:'' @ pid @ '':'' @ toLowerCase (trim nm)"

definition getPathKey :: "string \<Rightarrow> string \<Rightarrow> string \<Rightarrow> string" where
  "getPathKey pid m p = ''path:'' @ pid @ '':'' @ toUpperCase m @ '':'' @ p"

subsection \<open>The service state\<close>

text \<open>
  \<open>persistentStore\<close> is \<open>None\<close> for \<open>null\<close> and otherwise holds the \<open>cache\<close>
  namespace of the store's document. \<open>dirtyKeys\<close> is the \<open>Set\<close> in insertion
  order. \<open>syncTimer\<close> tells whether the interval timer is armed. \<open>immediates\<close>
  is the queue of callbacks that \<open>setApi\<close> has handed to \<open>setImmediate\<close> and
  that have not run yet, each recorded by its arguments \<open>(mainKey, entry)\<close>.
\<close>

record Stats =
  memory_hits :: nat
  memory_misses :: nat
  persistent_hits :: nat
  persistent_misses :: nat

record CacheService =
  enabled :: bool
  persistentEnabled :: bool
  ttl :: int
  syncInterval :: int
  memoryCache :: "(string, CachedApiEntry) LRUCache"
  urlIndex :: "(string, ApiIndexEntry) LRUCache"
  nameIndex :: "(string, ApiIndexEntry) LRUCache"
  pathIndex :: "(string, ApiIndexEntry) LRUCache"
  persistentStore :: "CacheData option"
  syncTimer :: bool
  dirtyKeys :: "string list"
  stats :: Stats
  immediates :: "(string \<times> CachedApiEntry) list"

datatype error = TypeError

datatype DiskOutcome = DiskOk | EntryWriteFails | IndexWriteFails

type_synonym LookupResult = "(CachedApiEntry \<times> CacheSource) option"

definition set_add :: "'a \<Rightarrow> 'a list \<Rightarrow> 'a list" where
  "set_add k ks = (if k \<in> set ks then ks else ks @ [k])"

definition hit_memory :: "CacheService \<Rightarrow> CacheService" where
  "hit_memory s = s\<lparr>stats := (stats s)\<lparr>memory_hits := Suc (memory_hits (stats s))\<rparr>\<rparr>"

definition miss_memory :: "CacheService \<Rightarrow> CacheService" where
  "miss_memory s = s\<lparr>stats := (stats s)\<lparr>memory_misses := Suc (memory_misses (stats s))\<rparr>\<rparr>"

definition hit_persistent :: "CacheService \<Rightarrow> CacheService" where
  "hit_persistent s = s\<lparr>stats := (stats s)\<lparr>persistent_hits := Suc (persistent_hits (stats s))\<rparr>\<rparr>"

text \<open>The guard \<open>this.persistentEnabled && this.persistentStore\<close>, yielding the store when it holds.\<close>

definition activeStore :: "CacheService \<Rightarrow> CacheData option" where
  "activeStore s = (if persistentEnabled s then persistentStore s else None)"

definition hasUrl :: "string option \<Rightarrow> bool" where
  "hasUrl u = (case u of None \<Rightarrow> False | Some x \<Rightarrow> x \<noteq> [])"

subsection \<open>Helpers: \<open>isExpired\<close>, \<open>fuzzySearchByName\<close>\<close>

definition isExpired :: "CacheService \<Rightarrow> int \<Rightarrow> CachedApiEntry \<Rightarrow> bool" where
  "isExpired s now entry \<longleftrightarrow> now - cachedAt (metadata entry) > ttl s"

definition fuzzySearchByName :: "CacheService \<Rightarrow> int \<Rightarrow> string \<Rightarrow> string \<Rightarrow> CachedApiEntry option" where
  "fuzzySearchByName s now pid keyword =
     (let lowerKeyword = trim (toLowerCase keyword) in
      map_option snd
        (find (\<lambda>(key, entry).
                 startsWith key (''api:'' @ pid @ '':'') \<and>
                 (str_includes (toLowerCase (name (metadata entry))) lowerKeyword \<or>
                  str_includes (toLowerCase (path (metadata entry))) lowerKeyword))
           (lru_entries (memoryCache s) now)))"

subsection \<open>Disk synchronisation\<close>

definition removeFromDisk :: "CacheService \<Rightarrow> string \<Rightarrow> CacheService" where
  "removeFromDisk s key =
     (case persistentStore s of
        None \<Rightarrow> s
      | Some cache \<Rightarrow> s\<lparr>persistentStore := Some (cache\<lparr>apis := AList.delete key (apis cache)\<rparr>)\<rparr>)"

definition cleanupExpiredDiskCache :: "CacheService \<Rightarrow> int \<Rightarrow> CacheService" where
  "cleanupExpiredDiskCache s now =
     (case persistentStore s of
        None \<Rightarrow> s
      | Some cache \<Rightarrow>
          s\<lparr>persistentStore :=
              Some (cache\<lparr>apis := filter (\<lambda>(key, entry). \<not> isExpired s now entry) (apis cache)\<rparr>)\<rparr>)"

text \<open>
  \<open>syncIndexesToDisk\<close> has a \<open>try\<close>/\<open>catch\<close> of its own: when its store access
  fails (\<open>IndexWriteFails\<close>) the indexes on disk stay as they were and control
  returns normally to \<open>syncToDisk\<close>.
\<close>

definition syncIndexesToDisk ::
  "(string \<Rightarrow> string) \<Rightarrow> CacheService \<Rightarrow> DiskOutcome \<Rightarrow> CachedApiEntry \<Rightarrow> CacheService" where
  "syncIndexesToDisk H s outcome entry =
     (case persistentStore s of
        None \<Rightarrow> s
      | Some cache \<Rightarrow>
          if outcome = IndexWriteFails then s
          else
            let m = metadata entry;
                ie = ApiIndexEntry (projectId m) (apiId m);
                c1 = (if hasUrl (url m)
                      then cache\<lparr>disk_urlIndex :=
                             AList.update (getUrlKey H (the (url m))) ie (disk_urlIndex cache)\<rparr>
                      else cache);
                c2 = c1\<lparr>disk_nameIndex :=
                          AList.update (getNameKey (projectId m) (name m)) ie (disk_nameIndex c1)\<rparr>;
                c3 = c2\<lparr>disk_pathIndex :=
                          AList.update (getPathKey (projectId m) (httpMethod m) (path m)) ie (disk_pathIndex c2)\<rparr>
            in s\<lparr>persistentStore := Some c3\<rparr>)"

text \<open>
  \<open>syncToDisk\<close>: when the read or the write of the entries map fails
  (\<open>EntryWriteFails\<close>) the \<open>catch\<close> block logs and nothing has changed; in
  particular \<open>dirtyKeys.delete(key)\<close> is not reached.
\<close>

definition syncToDisk ::
  "(string \<Rightarrow> string) \<Rightarrow> CacheService \<Rightarrow> DiskOutcome \<Rightarrow> string \<Rightarrow> CachedApiEntry \<Rightarrow> CacheService" where
  "syncToDisk H s outcome key entry =
     (case persistentStore s of
        None \<Rightarrow> s
      | Some cache \<Rightarrow>
          if outcome = EntryWriteFails then s
          else
            let s1 = s\<lparr>persistentStore := Some (cache\<lparr>apis := AList.update key entry (apis cache)\<rparr>)\<rparr>;
                s2 = syncIndexesToDisk H s1 outcome entry
            in s2\<lparr>dirtyKeys := removeAll key (dirtyKeys s2)\<rparr>)"

text \<open>The callback \<open>() => this.syncToDisk(mainKey, entry)\<close> at the head of the queue runs.\<close>

definition runImmediate :: "(string \<Rightarrow> string) \<Rightarrow> CacheService \<Rightarrow> DiskOutcome \<Rightarrow> CacheService" where
  "runImmediate H s outcome =
     (case immediates s of
        [] \<Rightarrow> s
      | (key, entry) # rest \<Rightarrow> syncToDisk H (s\<lparr>immediates := rest\<rparr>) outcome key entry)"

text \<open>The loop \<open>for (const key of this.dirtyKeys)\<close> of the timer and of \<open>shutdown\<close>.\<close>

fun syncDirty ::
  "(string \<Rightarrow> string) \<Rightarrow> (string \<Rightarrow> DiskOutcome) \<Rightarrow> int \<Rightarrow> string list \<Rightarrow> CacheService \<Rightarrow> CacheService" where
  "syncDirty H oc now [] s = s"
| "syncDirty H oc now (key # keys) s =
     (let (entry, mc) = lru_get (memoryCache s) now key;
          s1 = s\<lparr>memoryCache := mc\<rparr>
      in syncDirty H oc now keys
           (case entry of None \<Rightarrow> s1 | Some e \<Rightarrow> syncToDisk H s1 (oc key) key e))"

definition syncTimerTick ::
  "(string \<Rightarrow> string) \<Rightarrow> CacheService \<Rightarrow> int \<Rightarrow> (string \<Rightarrow> DiskOutcome) \<Rightarrow> CacheService" where
  "syncTimerTick H s now oc =
     (if \<not> syncTimer s \<or> dirtyKeys s = [] then s
      else syncDirty H oc now (dirtyKeys s) s)"

definition shutdown ::
  "(string \<Rightarrow> string) \<Rightarrow> CacheService \<Rightarrow> int \<Rightarrow> (string \<Rightarrow> DiskOutcome) \<Rightarrow> CacheService" where
  "shutdown H s now oc =
     (let s1 = s\<lparr>syncTimer := False\<rparr> in
      if dirtyKeys s1 \<noteq> [] \<and> persistentStore s1 \<noteq> None
      then syncDirty H oc now (dirtyKeys s1) s1
      else s1)"

fun loadLoop ::
  "CacheService \<Rightarrow> int \<Rightarrow> (string \<times> CachedApiEntry) list \<Rightarrow>
     (string, CachedApiEntry) LRUCache \<times> nat \<Rightarrow> (string, CachedApiEntry) LRUCache \<times> nat" where
  "loadLoop s now [] acc = acc"
| "loadLoop s now ((key, entry) # rest) (mc, expiredCount) =
     loadLoop s now rest
       (if isExpired s now entry then (mc, Suc expiredCount)
        else if 2 * lru_size mc < lru_max mc then (lru_set mc now key entry, expiredCount)
        else (mc, expiredCount))"

definition loadFromDisk :: "CacheService \<Rightarrow> int \<Rightarrow> CacheService" where
  "loadFromDisk s now =
     (case persistentStore s of
        None \<Rightarrow> s
      | Some cache \<Rightarrow>
          let (mc, expiredCount) = loadLoop s now (apis cache) (memoryCache s, 0);
              s1 = s\<lparr>memoryCache := mc\<rparr>
          in if expiredCount > 0 then cleanupExpiredDiskCache s1 now else s1)"

subsection \<open>Construction\<close>

text \<open>
  \<open>storage\<close> is what \<open>getStorageInstance()\<close> yields: \<open>None\<close> when it throws,
  otherwise the \<open>cache\<close> namespace found on disk. \<open>new LRUCache\<close> throws a
  \<open>TypeError\<close> for a negative \<open>max\<close> or \<open>ttl\<close>; the defaults replace the falsy
  values \<open>undefined\<close> and \<open>0\<close>. \<open>persistentMaxSize\<close> is computed and logged,
  and used nowhere else.
\<close>

definition orDefault :: "int option \<Rightarrow> int \<Rightarrow> int" where
  "orDefault v d = (case v of None \<Rightarrow> d | Some x \<Rightarrow> if x = 0 then d else x)"

definition persistentMaxSize :: "CacheOptions \<Rightarrow> int" where
  "persistentMaxSize options = orDefault (opt_persistentMaxSize options) 500"

definition CacheService_new :: "CacheOptions \<Rightarrow> CacheData option \<Rightarrow> int \<Rightarrow> error + CacheService" where
  "CacheService_new options storage now =
     (let ttl0 = orDefault (opt_ttl options) (60 * 60 * 1000);
          memoryMaxSize = orDefault (opt_maxSize options) 200
      in if memoryMaxSize < 0 \<or> ttl0 < 0 then Inl TypeError
         else
           let s0 = \<lparr>enabled = (opt_enabled options \<noteq> Some False),
                     persistentEnabled = (opt_persistent options \<noteq> Some False),
                     ttl = ttl0,
                     syncInterval = orDefault (opt_syncInterval options) 30000,
                     memoryCache = lru_new (nat memoryMaxSize) ttl0,
                     urlIndex = lru_new (nat (memoryMaxSize * 2)) ttl0,
                     nameIndex = lru_new (nat (memoryMaxSize * 2)) ttl0,
                     pathIndex = lru_new (nat (memoryMaxSize * 2)) ttl0,
                     persistentStore = None,
                     syncTimer = False,
                     dirtyKeys = [],
                     stats = \<lparr>memory_hits = 0, memory_misses = 0,
                              persistent_hits = 0, persistent_misses = 0\<rparr>,
                     immediates = []\<rparr>
           in if persistentEnabled s0
              then (case storage of
                      None \<Rightarrow> Inr (s0\<lparr>persistentEnabled := False, persistentStore := None\<rparr>)
                    | Some cache \<Rightarrow>
                        Inr ((loadFromDisk (s0\<lparr>persistentStore := Some cache\<rparr>) now)\<lparr>syncTimer := True\<rparr>))
              else Inr s0)"

subsection \<open>Storing: \<open>setApi\<close>\<close>

definition setApi :: "(string \<Rightarrow> string) \<Rightarrow> CacheService \<Rightarrow> int \<Rightarrow> CachedApiEntry \<Rightarrow> CacheService" where
  "setApi H s now entry =
     (if \<not> enabled s then s
      else
        let m = metadata entry;
            ie = ApiIndexEntry (projectId m) (apiId m);
            mainKey = getApiKey (projectId m) (apiId m);
            s1 = s\<lparr>memoryCache := lru_set (memoryCache s) now mainKey entry,
                   dirtyKeys := set_add mainKey (dirtyKeys s)\<rparr>;
            s2 = (if hasUrl (url m)
                  then s1\<lparr>urlIndex := lru_set (urlIndex s1) now (getUrlKey H (the (url m))) ie\<rparr>
                  else s1);
            s3 = s2\<lparr>nameIndex := lru_set (nameIndex s2) now (getNameKey (projectId m) (name m)) ie\<rparr>;
            s4 = s3\<lparr>pathIndex :=
                      lru_set (pathIndex s3) now (getPathKey (projectId m) (httpMethod m) (path m)) ie\<rparr>
        in if activeStore s4 \<noteq> None
           then s4\<lparr>immediates := immediates s4 @ [(mainKey, entry)]\<rparr>
           else s4)"

subsection \<open>Looking up\<close>

text \<open>The \<open>source\<close> argument of \<open>getApiInternal\<close> only labels log lines and is left out.\<close>

definition getApiInternal :: "CacheService \<Rightarrow> int \<Rightarrow> string \<Rightarrow> int \<Rightarrow> LookupResult \<times> CacheService" where
  "getApiInternal s now pid aid =
     (let key = getApiKey pid aid;
          (entry, mc) = lru_get (memoryCache s) now key;
          s1 = s\<lparr>memoryCache := mc\<rparr>
      in case (case entry of None \<Rightarrow> None | Some e \<Rightarrow> if isExpired s1 now e then None else Some e) of
           Some e \<Rightarrow> (Some (e, Memory), hit_memory s1)
         | None \<Rightarrow>
             (case activeStore s1 of
                None \<Rightarrow> (None, miss_memory s1)
              | Some cache \<Rightarrow>
                  (case map_of (apis cache) key of
                     None \<Rightarrow> (None, miss_memory s1)
                   | Some e \<Rightarrow>
                       if \<not> isExpired s1 now e
                       then let s2 = hit_persistent s1
                            in (Some (e, Disk), s2\<lparr>memoryCache := lru_set (memoryCache s2) now key e\<rparr>)
                       else (None, miss_memory (removeFromDisk s1 key)))))"

definition getApi :: "CacheService \<Rightarrow> int \<Rightarrow> string \<Rightarrow> int \<Rightarrow> LookupResult \<times> CacheService" where
  "getApi s now pid aid = (if \<not> enabled s then (None, s) else getApiInternal s now pid aid)"

definition findByUrl :: "(string \<Rightarrow> string) \<Rightarrow> CacheService \<Rightarrow> int \<Rightarrow> string \<Rightarrow> LookupResult \<times> CacheService" where
  "findByUrl H s now u =
     (if \<not> enabled s then (None, s)
      else
        let urlKey = getUrlKey H u;
            (index, ui) = lru_get (urlIndex s) now urlKey;
            s1 = s\<lparr>urlIndex := ui\<rparr>;
            (index', s2) =
              (case index of
                 Some i \<Rightarrow> (Some i, s1)
               | None \<Rightarrow>
                   (case activeStore s1 of
                      None \<Rightarrow> (None, s1)
                    | Some cache \<Rightarrow>
                        (case map_of (disk_urlIndex cache) urlKey of
                           None \<Rightarrow> (None, s1)
                         | Some i \<Rightarrow>
                             let s' = hit_persistent s1
                             in (Some i, s'\<lparr>urlIndex := lru_set (urlIndex s') now urlKey i\<rparr>))))
        in case index' of
             None \<Rightarrow> (None, miss_memory s2)
           | Some i \<Rightarrow> getApiInternal s2 now (idx_projectId i) (idx_apiId i))"

definition findByName :: "CacheService \<Rightarrow> int \<Rightarrow> string \<Rightarrow> string \<Rightarrow> LookupResult \<times> CacheService" where
  "findByName s now pid nm =
     (if \<not> enabled s then (None, s)
      else
        let exactKey = getNameKey pid nm;
            (index, ni) = lru_get (nameIndex s) now exactKey;
            s1 = s\<lparr>nameIndex := ni\<rparr>;
            (index', s2) =
              (case index of
                 Some i \<Rightarrow> (Some i, s1)
               | None \<Rightarrow>
                   (case activeStore s1 of
                      None \<Rightarrow> (None, s1)
                    | Some cache \<Rightarrow>
                        (case map_of (disk_nameIndex cache) exactKey of
                           None \<Rightarrow> (None, s1)
                         | Some i \<Rightarrow>
                             let s' = hit_persistent s1
                             in (Some i, s'\<lparr>nameIndex := lru_set (nameIndex s') now exactKey i\<rparr>))));
            (result, s3) =
              (case index' of
                 None \<Rightarrow> (None, s2)
               | Some i \<Rightarrow> getApiInternal s2 now pid (idx_apiId i))
        in case result of
             Some r \<Rightarrow> (Some r, s3)
           | None \<Rightarrow>
               (case fuzzySearchByName s3 now pid nm of
                  Some fuzzyResult \<Rightarrow> (Some (fuzzyResult, Memory), hit_memory s3)
                | None \<Rightarrow> (None, miss_memory s3)))"

definition findByPath ::
  "CacheService \<Rightarrow> int \<Rightarrow> string \<Rightarrow> string \<Rightarrow> string \<Rightarrow> LookupResult \<times> CacheService" where
  "findByPath s now pid m p =
     (if \<not> enabled s then (None, s)
      else
        let pathKey = getPathKey pid m p;
            (index, pi) = lru_get (pathIndex s) now pathKey;
            s1 = s\<lparr>pathIndex := pi\<rparr>;
            (index', s2) =
              (case index of
                 Some i \<Rightarrow> (Some i, s1)
               | None \<Rightarrow>
                   (case activeStore s1 of
                      None \<Rightarrow> (None, s1)
                    | Some cache \<Rightarrow>
                        (case map_of (disk_pathIndex cache) pathKey of
                           None \<Rightarrow> (None, s1)
                         | Some i \<Rightarrow>
                             let s' = hit_persistent s1
                             in (Some i, s'\<lparr>pathIndex := lru_set (pathIndex s') now pathKey i\<rparr>))))
        in case index' of
             None \<Rightarrow> (None, miss_memory s2)
           | Some i \<Rightarrow> getApiInternal s2 now pid (idx_apiId i))"

subsection \<open>Clearing\<close>

definition emptyCacheData :: CacheData where
  "emptyCacheData = \<lparr>apis = [], disk_urlIndex = [], disk_nameIndex = [], disk_pathIndex = []\<rparr>"

definition clear :: "CacheService \<Rightarrow> CacheService" where
  "clear s =
     s\<lparr>memoryCache := lru_clear (memoryCache s),
       urlIndex := lru_clear (urlIndex s),
       nameIndex := lru_clear (nameIndex s),
       pathIndex := lru_clear (pathIndex s),
       persistentStore := map_option (\<lambda>_. emptyCacheData) (persistentStore s),
       stats := \<lparr>memory_hits = 0, memory_misses = 0, persistent_hits = 0, persistent_misses = 0\<rparr>\<rparr>"

text \<open>
  The loop over \<open>this.memoryCache.keys()\<close> in \<open>clearProject\<close>: the keys are those
  of the items that are not stale, and a key with the prefix is deleted and counted.
\<close>

fun clearLoop ::
  "string \<Rightarrow> string list \<Rightarrow> (string, CachedApiEntry) LRUCache \<times> nat \<Rightarrow>
     (string, CachedApiEntry) LRUCache \<times> nat" where
  "clearLoop pre [] acc = acc"
| "clearLoop pre (key # keys) (mc, count) =
     clearLoop pre keys
       (if startsWith key pre then (lru_delete mc key, Suc count) else (mc, count))"

definition clearProject :: "CacheService \<Rightarrow> int \<Rightarrow> string \<Rightarrow> nat \<times> CacheService" where
  "clearProject s now pid =
     (let (mc, count) =
            clearLoop (''api:'' @ pid @ '':'') (lru_keys (memoryCache s) now) (memoryCache s, 0);
          store =
            map_option
              (\<lambda>cache. cache\<lparr>apis := filter (\<lambda>(key, entry). projectId (metadata entry) \<noteq> pid) (apis cache),
                             disk_urlIndex := [], disk_nameIndex := [], disk_pathIndex := []\<rparr>)
              (persistentStore s)
      in (count,
          s\<lparr>memoryCache := mc,
            persistentStore := store,
            urlIndex := lru_clear (urlIndex s),
            nameIndex := lru_clear (nameIndex s),
            pathIndex := lru_clear (pathIndex s)\<rparr>))"

definition clearByUrl :: "(string \<Rightarrow> string) \<Rightarrow> CacheService \<Rightarrow> int \<Rightarrow> string \<Rightarrow> bool \<times> CacheService" where
  "clearByUrl H s now u =
     (if \<not> enabled s then (False, s)
      else
        let urlKey = getUrlKey H u;
            (index, ui) = lru_get (urlIndex s) now urlKey;
            s1 = s\<lparr>urlIndex := ui\<rparr>;
            index' =
              (case index of
                 Some i \<Rightarrow> Some i
               | None \<Rightarrow>
                   (case activeStore s1 of
                      None \<Rightarrow> None
                    | Some cache \<Rightarrow> map_of (disk_urlIndex cache) urlKey))
        in case index' of
             None \<Rightarrow> (False, s1)
           | Some i \<Rightarrow>
               let mainKey = getApiKey (idx_projectId i) (idx_apiId i);
                   s2 = s1\<lparr>memoryCache := lru_delete (memoryCache s1) mainKey\<rparr>;
                   s3 = s2\<lparr>persistentStore :=
                             map_option
                               (\<lambda>cache. cache\<lparr>apis := AList.delete mainKey (apis cache),
                                              disk_urlIndex := AList.delete urlKey (disk_urlIndex cache)\<rparr>)
                               (persistentStore s2)\<rparr>
               in (True, s3\<lparr>urlIndex := lru_delete (urlIndex s3) urlKey\<rparr>))"

subsection \<open>Sequences of operations\<close>

text \<open>
  The operations that a client, the event loop and the interval timer can
  perform on a service, each at a clock reading. A state is reachable when it
  results from construction followed by operations at non-decreasing clock
  readings; the index \<open>t\<close> of \<open>reachable\<close> is the latest reading so far.
\<close>

datatype CacheOp =
    SetApi CachedApiEntry
  | GetApi string int
  | FindByUrl string
  | FindByName string string
  | FindByPath string string string
  | Clear
  | ClearProject string
  | ClearByUrl string
  | RunImmediate DiskOutcome
  | SyncTimerTick "string \<Rightarrow> DiskOutcome"
  | Shutdown "string \<Rightarrow> DiskOutcome"

fun exec :: "(string \<Rightarrow> string) \<Rightarrow> CacheService \<Rightarrow> int \<Rightarrow> CacheOp \<Rightarrow> CacheService" where
  "exec H s now (SetApi entry) = setApi H s now entry"
| "exec H s now (GetApi pid aid) = snd (getApi s now pid aid)"
| "exec H s now (FindByUrl u) = snd (findByUrl H s now u)"
| "exec H s now (FindByName pid nm) = snd (findByName s now pid nm)"
| "exec H s now (FindByPath pid m p) = snd (findByPath s now pid m p)"
| "exec H s now Clear = clear s"
| "exec H s now (ClearProject pid) = snd (clearProject s now pid)"
| "exec H s now (ClearByUrl u) = snd (clearByUrl H s now u)"
| "exec H s now (RunImmediate outcome) = runImmediate H s outcome"
| "exec H s now (SyncTimerTick oc) = syncTimerTick H s now oc"
| "exec H s now (Shutdown oc) = shutdown H s now oc"

inductive reachable :: "(string \<Rightarrow> string) \<Rightarrow> CacheOptions \<Rightarrow> int \<Rightarrow> CacheService \<Rightarrow> bool"
  for H :: "string \<Rightarrow> string" and options :: CacheOptions where
  init: "CacheService_new options storage t0 = Inr s \<Longrightarrow> reachable H options t0 s"
| step: "reachable H options t s \<Longrightarrow> t \<le> now \<Longrightarrow> reachable H options now (exec H s now op)"

text \<open>
  Well-formedness of an \<open>LRUCache\<close> at clock reading \<open>t\<close>: positive capacity and
  \<open>ttl\<close>, no more items than the capacity, one item per key, and the items in
  the order of their last access, none accessed after \<open>t\<close>.
\<close>

definition lru_wf :: "int \<Rightarrow> ('k, 'v) LRUCache \<Rightarrow> bool" where
  "lru_wf t c \<longleftrightarrow>
     0 < lru_max c \<and> 0 < lru_ttl c \<and> length (lru_items c) \<le> lru_max c \<and>
     distinct (map fst (lru_items c)) \<and>
     sorted_wrt (\<lambda>a b. snd (snd b) \<le> snd (snd a)) (lru_items c) \<and>
     (\<forall>it \<in> set (lru_items c). snd (snd it) \<le> t)"

text \<open>
  The invariant carried along every run: the memory tier is well formed, its
  capacity is the configured one, and \<open>enabled\<close> is what the options said.
\<close>

definition svc_inv :: "CacheOptions \<Rightarrow> int \<Rightarrow> CacheService \<Rightarrow> bool" where
  "svc_inv options t s \<longleftrightarrow>
     lru_wf t (memoryCache s) \<and>
     lru_max (memoryCache s) = nat (orDefault (opt_maxSize options) 200) \<and>
     enabled s = (opt_enabled options \<noteq> Some False)"

text \<open>
  \<open>same_core s s'\<close>: \<open>s'\<close> differs from \<open>s\<close> at most in the three index caches
  and in the disk-hit counter, which is all that the index stage of a lookup changes.
\<close>

definition same_core :: "CacheService \<Rightarrow> CacheService \<Rightarrow> bool" where
  "same_core s s' \<longleftrightarrow>
     enabled s' = enabled s \<and> persistentEnabled s' = persistentEnabled s \<and> ttl s' = ttl s \<and>
     memoryCache s' = memoryCache s \<and> persistentStore s' = persistentStore s \<and>
     dirtyKeys s' = dirtyKeys s \<and> immediates s' = immediates s \<and> syncTimer s' = syncTimer s \<and>
     memory_hits (stats s') = memory_hits (stats s) \<and>
     memory_misses (stats s') = memory_misses (stats s) \<and>
     persistent_misses (stats s') = persistent_misses (stats s)"

text \<open>The memory tier ages its items with the service's own \<open>ttl\<close>.\<close>

definition ttl_inv :: "CacheService \<Rightarrow> bool" where
  "ttl_inv s \<longleftrightarrow> lru_ttl (memoryCache s) = ttl s"

text \<open>
  What one resolution adds to the counters when it is charged to the tier that
  satisfied it: a hit of that tier, or one memory miss.
\<close>

definition counted :: "Stats \<Rightarrow> LookupResult \<Rightarrow> Stats" where
  "counted st r =
     (case r of
        None \<Rightarrow> st\<lparr>memory_misses := Suc (memory_misses st)\<rparr>
      | Some (e, Memory) \<Rightarrow> st\<lparr>memory_hits := Suc (memory_hits st)\<rparr>
      | Some (e, Disk) \<Rightarrow> st\<lparr>persistent_hits := Suc (persistent_hits st)\<rparr>)"

text \<open>
  The index stage of a lookup is served by the disk index: the memory index
  yields nothing for the key and the disk index, consulted under the guard, does.
\<close>

definition diskIndexHit ::
  "(string, ApiIndexEntry) LRUCache \<Rightarrow> (CacheData \<Rightarrow> (string \<times> ApiIndexEntry) list) \<Rightarrow>
     CacheService \<Rightarrow> int \<Rightarrow> string \<Rightarrow> bool" where
  "diskIndexHit memIndex diskIndex s now key \<longleftrightarrow>
     fst (lru_get memIndex now key) = None \<and>
     (\<exists>cache. activeStore s = Some cache \<and> map_of (diskIndex cache) key \<noteq> None)"

text \<open>The keys and the index entry that \<open>setApi\<close> derives from an entry's metadata.\<close>

abbreviation mainKey :: "CachedApiEntry \<Rightarrow> string" where
  "mainKey entry \<equiv> getApiKey (projectId (metadata entry)) (apiId (metadata entry))"

abbreviation indexEntry :: "CachedApiEntry \<Rightarrow> ApiIndexEntry" where
  "indexEntry entry \<equiv> ApiIndexEntry (projectId (metadata entry)) (apiId (metadata entry))"

abbreviation nameKey :: "CachedApiEntry \<Rightarrow> string" where
  "nameKey entry \<equiv> getNameKey (projectId (metadata entry)) (name (metadata entry))"

abbreviation pathKey :: "CachedApiEntry \<Rightarrow> string" where
  "pathKey entry \<equiv>
     getPathKey (projectId (metadata entry)) (httpMethod (metadata entry)) (path (metadata entry))"

text \<open>
  \<open>flushed k e x\<close>: the disk tier holds \<open>e\<close> under \<open>k\<close> and \<open>k\<close> is not dirty.
  \<open>resident now k e x\<close>: a store is attached and the memory tier holds \<open>e\<close>
  under \<open>k\<close>, not stale at \<open>now\<close>.
\<close>

definition flushed :: "string \<Rightarrow> CachedApiEntry \<Rightarrow> CacheService \<Rightarrow> bool" where
  "flushed k e x \<longleftrightarrow>
     (\<exists>cache. persistentStore x = Some cache \<and> map_of (apis cache) k = Some e) \<and>
     k \<notin> set (dirtyKeys x)"

definition resident :: "int \<Rightarrow> string \<Rightarrow> CachedApiEntry \<Rightarrow> CacheService \<Rightarrow> bool" where
  "resident now k e x \<longleftrightarrow>
     persistentStore x \<noteq> None \<and> 0 \<le> lru_ttl (memoryCache x) \<and>
     (\<exists>st. map_of (lru_items (memoryCache x)) k = Some (e, st) \<and>
           \<not> lru_isStale (memoryCache x) now st)"

text \<open>One round of the loop of \<open>syncDirty\<close>.\<close>

definition syncDirtyStep ::
  "(string \<Rightarrow> string) \<Rightarrow> (string \<Rightarrow> DiskOutcome) \<Rightarrow> int \<Rightarrow> string \<Rightarrow> CacheService \<Rightarrow> CacheService" where
  "syncDirtyStep H oc now key s =
     (case fst (lru_get (memoryCache s) now key) of
        None \<Rightarrow> s\<lparr>memoryCache := snd (lru_get (memoryCache s) now key)\<rparr>
      | Some e \<Rightarrow> syncToDisk H (s\<lparr>memoryCache := snd (lru_get (memoryCache s) now key)\<rparr>) (oc key) key e)"

text \<open>
  \<open>keyedStore s\<close>: every entry of the disk document is stored under the key of
  its own \<open>projectId\<close> and \<open>apiId\<close>, which is how \<open>setApi\<close> and the deferred
  write store it. \<open>keyed s\<close>: the same holds of the memory tier and of the
  pending deferred writes as well.
\<close>

definition keyedStore :: "CacheService \<Rightarrow> bool" where
  "keyedStore s \<longleftrightarrow>
     (case persistentStore s of
        None \<Rightarrow> True
      | Some cache \<Rightarrow> list_all (\<lambda>(k, e). k = mainKey e) (apis cache))"

definition keyedMem :: "(string, CachedApiEntry) LRUCache \<Rightarrow> bool" where
  "keyedMem c \<longleftrightarrow> list_all (\<lambda>(k, e, st). k = mainKey e) (lru_items c)"

definition keyed :: "CacheService \<Rightarrow> bool" where
  "keyed s \<longleftrightarrow>
     keyedMem (memoryCache s) \<and> keyedStore s \<and>
     list_all (\<lambda>(k, e). k = mainKey e) (immediates s)"

text \<open>
  \<open>cleared pid t s\<close>: at clock reading \<open>t\<close> no tier offers an entry of project
  \<open>pid\<close>: such entries as the memory tier still holds are stale, the disk
  document holds none, and no deferred write of one is pending.
\<close>

definition clearedMem :: "string \<Rightarrow> int \<Rightarrow> (string, CachedApiEntry) LRUCache \<Rightarrow> bool" where
  "clearedMem pid t c \<longleftrightarrow>
     list_all (\<lambda>(k, e, st). projectId (metadata e) = pid \<longrightarrow> lru_isStale c t st) (lru_items c)"

definition cleared :: "string \<Rightarrow> int \<Rightarrow> CacheService \<Rightarrow> bool" where
  "cleared pid t s \<longleftrightarrow>
     clearedMem pid t (memoryCache s) \<and>
     (case persistentStore s of
        None \<Rightarrow> True
      | Some cache \<Rightarrow> list_all (\<lambda>(k, e). projectId (metadata e) \<noteq> pid) (apis cache)) \<and>
     list_all (\<lambda>(k, e). projectId (metadata e) \<noteq> pid) (immediates s)"

text \<open>
  A run: operations with their clock readings, performed one after the other.
  \<open>ascending t ops tr\<close>: the readings of \<open>ops\<close> do not decrease, start at or
  after \<open>t\<close> and end at or before \<open>tr\<close>. \<open>storesProject pid op\<close>: the operation
  is a \<open>setApi\<close> of an entry of project \<open>pid\<close>.
\<close>

fun run :: "(string \<Rightarrow> string) \<Rightarrow> CacheService \<Rightarrow> (int \<times> CacheOp) list \<Rightarrow> CacheService" where
  "run H s [] = s"
| "run H s ((now, op) # rest) = run H (exec H s now op) rest"

fun ascending :: "int \<Rightarrow> (int \<times> CacheOp) list \<Rightarrow> int \<Rightarrow> bool" where
  "ascending t [] tr \<longleftrightarrow> t \<le> tr"
| "ascending t ((now, op) # rest) tr \<longleftrightarrow> t \<le> now \<and> ascending now rest tr"

definition storesProject :: "string \<Rightarrow> CacheOp \<Rightarrow> bool" where
  "storesProject pid op = (case op of SetApi e \<Rightarrow> projectId (metadata e) = pid | _ \<Rightarrow> False)"

subsection \<open>Example configurations\<close>

text \<open>
  Concrete options, entries and states on which the theorems below are
  exercised. The states are what the constructor yields for the options (see the
  lemmas \<open>ex_new_off\<close>, \<open>ex_new_mem\<close>, \<open>ex_new_loaded\<close>, \<open>ex_new_fresh\<close>,
  \<open>ex_new_two\<close>) or what
  a short run from there yields. In the examples the digest \<open>H\<close> is the identity,
  the ttl is 100 ms and the memory tier has room for two entries.
\<close>

definition ex_options_off :: CacheOptions where
  "ex_options_off = \<lparr>opt_enabled = Some False, opt_ttl = Some 100, opt_maxSize = Some 2,
     opt_persistent = Some False, opt_persistentMaxSize = None, opt_syncInterval = None\<rparr>"

definition ex_state_off :: CacheService where
  "ex_state_off =
     \<lparr>enabled = False, persistentEnabled = False, ttl = 100, syncInterval = 30000,
      memoryCache = lru_new 2 100, urlIndex = lru_new 4 100, nameIndex = lru_new 4 100,
      pathIndex = lru_new 4 100, persistentStore = None, syncTimer = False, dirtyKeys = [],
      stats = \<lparr>memory_hits = 0, memory_misses = 0, persistent_hits = 0, persistent_misses = 0\<rparr>,
      immediates = []\<rparr>"

definition ex_entry :: CachedApiEntry where
  "ex_entry = \<lparr>document = ''d'', metadata = \<lparr>apiId = 7, projectId = ''1'', name = ''Login'',
     path = ''/login'', httpMethod = ''post'', url = Some ''u'', cachedAt = 1000\<rparr>\<rparr>"

definition ex_options_on :: CacheOptions where
  "ex_options_on = \<lparr>opt_enabled = None, opt_ttl = Some 100, opt_maxSize = Some 2,
     opt_persistent = None, opt_persistentMaxSize = Some 1, opt_syncInterval = None\<rparr>"

definition ex_disk :: CacheData where
  "ex_disk = \<lparr>apis = [(''api:1:7'', ex_entry)],
     disk_urlIndex = [(''url:u'', ApiIndexEntry ''1'' 7)],
     disk_nameIndex = [(''name:1:login'', ApiIndexEntry ''1'' 7)],
     disk_pathIndex = [(''path:1:POST:/login'', ApiIndexEntry ''1'' 7)]\<rparr>"

definition ex_state_loaded :: CacheService where
  "ex_state_loaded =
     \<lparr>enabled = True, persistentEnabled = True, ttl = 100, syncInterval = 30000,
      memoryCache = \<lparr>lru_max = 2, lru_ttl = 100, lru_items = [(''api:1:7'', ex_entry, 1050)]\<rparr>,
      urlIndex = lru_new 4 100, nameIndex = lru_new 4 100,
      pathIndex = lru_new 4 100, persistentStore = Some ex_disk, syncTimer = True, dirtyKeys = [],
      stats = \<lparr>memory_hits = 0, memory_misses = 0, persistent_hits = 0, persistent_misses = 0\<rparr>,
      immediates = []\<rparr>"

definition ex_options_mem :: CacheOptions where
  "ex_options_mem = \<lparr>opt_enabled = None, opt_ttl = Some 100, opt_maxSize = Some 2,
     opt_persistent = Some False, opt_persistentMaxSize = None, opt_syncInterval = None\<rparr>"

definition ex_state_mem :: CacheService where
  "ex_state_mem = ex_state_off\<lparr>enabled := True\<rparr>"

definition ex_state_fresh :: CacheService where
  "ex_state_fresh =
     ex_state_loaded\<lparr>memoryCache := lru_new 2 100, persistentStore := Some emptyCacheData\<rparr>"

definition ex_state_synced :: CacheService where
  "ex_state_synced =
     ex_state_loaded\<lparr>
       memoryCache := \<lparr>lru_max = 2, lru_ttl = 100, lru_items = [(''api:1:7'', ex_entry, 1000)]\<rparr>,
       urlIndex := \<lparr>lru_max = 4, lru_ttl = 100, lru_items = [(''url:u'', ApiIndexEntry ''1'' 7, 1000)]\<rparr>,
       nameIndex := \<lparr>lru_max = 4, lru_ttl = 100, lru_items = [(''name:1:login'', ApiIndexEntry ''1'' 7, 1000)]\<rparr>,
       pathIndex := \<lparr>lru_max = 4, lru_ttl = 100,
                     lru_items = [(''path:1:POST:/login'', ApiIndexEntry ''1'' 7, 1000)]\<rparr>\<rparr>"

definition ex_entry2 :: CachedApiEntry where
  "ex_entry2 = \<lparr>document = ''e'', metadata = \<lparr>apiId = 8, projectId = ''1'', name = ''Logout'',
     path = ''/logout'', httpMethod = ''post'', url = None, cachedAt = 1001\<rparr>\<rparr>"

definition ex_entry_colon :: CachedApiEntry where
  "ex_entry_colon = \<lparr>document = ''f'', metadata = \<lparr>apiId = 3, projectId = ''1:2'', name = ''Ping'',
     path = ''/ping'', httpMethod = ''get'', url = None, cachedAt = 1000\<rparr>\<rparr>"

definition ex_disk2 :: CacheData where
  "ex_disk2 = \<lparr>apis = [(''api:1:7'', ex_entry), (''api:1:8'', ex_entry2)],
     disk_urlIndex = [(''url:u'', ApiIndexEntry ''1'' 7)],
     disk_nameIndex = [(''name:1:login'', ApiIndexEntry ''1'' 7), (''name:1:logout'', ApiIndexEntry ''1'' 8)],
     disk_pathIndex = [(''path:1:POST:/login'', ApiIndexEntry ''1'' 7),
                       (''path:1:POST:/logout'', ApiIndexEntry ''1'' 8)]\<rparr>"

definition ex_entry3 :: CachedApiEntry where
  "ex_entry3 = \<lparr>document = ''g'', metadata = \<lparr>apiId = 9, projectId = ''1'', name = ''Me'',
     path = ''/me'', httpMethod = ''get'', url = None, cachedAt = 1003\<rparr>\<rparr>"

definition ex_state_read :: CacheService where
  "ex_state_read =
     exec id (exec id (exec id ex_state_mem 1000 (SetApi ex_entry)) 1001 (SetApi ex_entry2))
       1002 (GetApi ''1'' 7)"

definition ex_entry_other :: CachedApiEntry where
  "ex_entry_other = \<lparr>document = ''h'', metadata = \<lparr>apiId = 5, projectId = ''2'', name = ''Ping'',
     path = ''/ping'', httpMethod = ''get'', url = None, cachedAt = 1000\<rparr>\<rparr>"

definition ex_disk_two :: CacheData where
  "ex_disk_two = \<lparr>apis = [(''api:1:7'', ex_entry), (''api:2:5'', ex_entry_other)],
     disk_urlIndex = [], disk_nameIndex = [], disk_pathIndex = []\<rparr>"

definition ex_state_two :: CacheService where
  "ex_state_two = ex_state_loaded\<lparr>persistentStore := Some ex_disk_two\<rparr>"

definition ex_entry_v2 :: CachedApiEntry where
  "ex_entry_v2 = ex_entry\<lparr>document := ''d2''\<rparr>"

definition ex_ops :: "(int \<times> CacheOp) list" where
  "ex_ops = [(1052, GetApi ''2'' 5), (1053, SetApi ex_entry_other), (1054, RunImmediate DiskOk),
             (1055, SyncTimerTick (\<lambda>k. DiskOk))]"

section \<open>Properties\<close>

subsection \<open>The memory tier stays well formed\<close>

lemma lru_remove_length: "length (lru_remove k its) \<le> length its"
  by (simp add: lru_remove_def)

lemma lru_remove_length_less:
  "map_of its k = Some x \<Longrightarrow> length (lru_remove k its) < length its"
proof -
  assume "map_of its k = Some x"
  then have "(k, x) \<in> set its" by (rule map_of_SomeD)
  then show ?thesis unfolding lru_remove_def
    by (rule length_filter_less) simp
qed

lemma lru_remove_set: "set (lru_remove k its) \<subseteq> set its"
  by (auto simp: lru_remove_def)

lemma lru_remove_notin: "k \<notin> fst ` set (lru_remove k its)"
  by (auto simp: lru_remove_def)

lemma lru_remove_distinct: "distinct (map fst its) \<Longrightarrow> distinct (map fst (lru_remove k its))"
  by (simp add: lru_remove_def distinct_map_filter)

lemma lru_remove_sorted: "sorted_wrt P its \<Longrightarrow> sorted_wrt P (lru_remove k its)"
  by (simp add: lru_remove_def sorted_wrt_filter)

lemma sorted_wrt_butlast: "sorted_wrt P xs \<Longrightarrow> sorted_wrt P (butlast xs)"
  by (induction xs) (auto dest: in_set_butlastD)

lemma lru_wf_mono: "lru_wf t c \<Longrightarrow> t \<le> t' \<Longrightarrow> lru_wf t' c"
  unfolding lru_wf_def by force

lemma lru_wf_items:
  assumes "lru_wf t c" "length its \<le> lru_max c" "distinct (map fst its)"
    "sorted_wrt (\<lambda>a b. snd (snd b) \<le> snd (snd a)) its" "\<forall>it \<in> set its. snd (snd it) \<le> t'"
  shows "lru_wf t' (c\<lparr>lru_items := its\<rparr>)"
  using assms unfolding lru_wf_def by simp

lemma lru_wf_front:
  assumes wf: "lru_wf t c" and le: "t \<le> now"
    and sub: "set its \<subseteq> set (lru_items c)" and len: "Suc (length its) \<le> lru_max c"
    and d: "distinct (map fst its)" and k: "k \<notin> fst ` set its"
    and srt: "sorted_wrt (\<lambda>a b. snd (snd b) \<le> snd (snd a)) its"
  shows "lru_wf now (c\<lparr>lru_items := (k, v, lru_start c now) # its\<rparr>)"
proof -
  have st: "lru_start c now = now" using wf by (simp add: lru_wf_def lru_start_def)
  have b: "\<forall>it \<in> set its. snd (snd it) \<le> now"
    using wf le sub unfolding lru_wf_def by force
  show ?thesis
    using wf len d k srt b unfolding lru_wf_def st by auto
qed

lemma lru_wf_set: 
  assumes wf: "lru_wf t c" and le: "t \<le> now"
  shows "lru_wf now (lru_set c now k v)"
proof (cases "map_of (lru_items c) k")
  case (Some old)
  have "lru_wf now (c\<lparr>lru_items := (k, v, lru_start c now) # lru_remove k (lru_items c)\<rparr>)"
  proof (rule lru_wf_front[OF wf le])
    show "Suc (length (lru_remove k (lru_items c))) \<le> lru_max c"
      using lru_remove_length_less[OF Some] wf by (simp add: lru_wf_def)
  qed (use wf lru_remove_set[of k "lru_items c"] lru_remove_notin[of k "lru_items c"] in
        \<open>auto simp: lru_wf_def lru_remove_distinct lru_remove_sorted\<close>)
  then show ?thesis using Some by (simp add: lru_set_def)
next
  case None
  show ?thesis
  proof (cases "length (lru_items c) = lru_max c")
    case True
    have k: "k \<notin> fst ` set (lru_items c)" using None by (simp add: map_of_eq_None_iff)
    have "lru_wf now (c\<lparr>lru_items := (k, v, lru_start c now) # butlast (lru_items c)\<rparr>)"
    proof (rule lru_wf_front[OF wf le])
      show "Suc (length (butlast (lru_items c))) \<le> lru_max c"
        using True wf by (simp add: lru_wf_def)
      show "k \<notin> fst ` set (butlast (lru_items c))" using k by (auto dest: in_set_butlastD)
      show "distinct (map fst (butlast (lru_items c)))"
        using wf distinct_butlast[of "map fst (lru_items c)"]
        by (simp add: lru_wf_def map_butlast)
    qed (use wf in \<open>auto simp: lru_wf_def sorted_wrt_butlast dest: in_set_butlastD\<close>)
    then show ?thesis using None True by (simp add: lru_set_def)
  next
    case False
    have k: "k \<notin> fst ` set (lru_items c)" using None by (simp add: map_of_eq_None_iff)
    have "lru_wf now (c\<lparr>lru_items := (k, v, lru_start c now) # lru_items c\<rparr>)"
      by (rule lru_wf_front[OF wf le]) (use wf False k in \<open>auto simp: lru_wf_def\<close>)
    then show ?thesis using None False by (simp add: lru_set_def)
  qed
qed

lemma lru_wf_delete: "lru_wf t c \<Longrightarrow> lru_wf t (lru_delete c k)"
  unfolding lru_delete_def
  using lru_remove_length[of k "lru_items c"] lru_remove_set[of k "lru_items c"]
  by (intro lru_wf_items[where t=t])
     (auto simp: lru_wf_def lru_remove_distinct lru_remove_sorted)

lemma lru_wf_clear: "lru_wf t c \<Longrightarrow> lru_wf t (lru_clear c)"
  by (simp add: lru_wf_def lru_clear_def)

lemma lru_wf_get:
  assumes wf: "lru_wf t c" and le: "t \<le> now"
  shows "lru_wf now (snd (lru_get c now k))"
proof (cases "map_of (lru_items c) k")
  case None
  then show ?thesis using lru_wf_mono[OF wf le] by (simp add: lru_get_def)
next
  case (Some x)
  obtain v start where x: "x = (v, start)" by (cases x)
  show ?thesis
  proof (cases "lru_isStale c now start")
    case True
    have "lru_wf now (lru_delete c k)" using lru_wf_mono[OF lru_wf_delete[OF wf] le] .
    then show ?thesis using Some x True by (simp add: lru_get_def lru_delete_def)
  next
    case False
    have "lru_wf now (c\<lparr>lru_items := (k, v, lru_start c now) # lru_remove k (lru_items c)\<rparr>)"
    proof (rule lru_wf_front[OF wf le])
      show "Suc (length (lru_remove k (lru_items c))) \<le> lru_max c"
        using lru_remove_length_less[OF Some] wf by (simp add: lru_wf_def)
    qed (use wf lru_remove_set[of k "lru_items c"] lru_remove_notin[of k "lru_items c"] in
        \<open>auto simp: lru_wf_def lru_remove_distinct lru_remove_sorted\<close>)
    then show ?thesis using Some x False by (simp add: lru_get_def)
  qed
qed


lemma lru_max_set [simp]: "lru_max (lru_set c now k v) = lru_max c"
  by (simp add: lru_set_def Let_def split: option.splits)

lemma lru_max_get [simp]: "lru_max (snd (lru_get c now k)) = lru_max c"
  by (simp add: lru_get_def split: option.splits prod.splits)

lemma lru_max_delete [simp]: "lru_max (lru_delete c k) = lru_max c"
  by (simp add: lru_delete_def)

lemma lru_max_clear [simp]: "lru_max (lru_clear c) = lru_max c"
  by (simp add: lru_clear_def)

lemma svc_inv_cong:
  "svc_inv options t s \<Longrightarrow> memoryCache s' = memoryCache s \<Longrightarrow> enabled s' = enabled s \<Longrightarrow>
   svc_inv options t s'"
  by (simp add: svc_inv_def)

lemma svc_inv_mono: "svc_inv options t s \<Longrightarrow> t \<le> t' \<Longrightarrow> svc_inv options t' s"
  by (auto simp: svc_inv_def intro: lru_wf_mono)

lemma getApiInternal_enabled [simp]:
  "enabled (snd (getApiInternal s now pid aid)) = enabled s"
  by (simp add: getApiInternal_def Let_def hit_memory_def miss_memory_def hit_persistent_def
      removeFromDisk_def split: option.splits prod.splits)

lemma activeStore_simps [simp]:
  "activeStore (s\<lparr>nameIndex := n\<rparr>) = activeStore s"
  "activeStore (s\<lparr>urlIndex := n\<rparr>) = activeStore s"
  "activeStore (s\<lparr>pathIndex := n\<rparr>) = activeStore s"
  "activeStore (s\<lparr>memoryCache := mc\<rparr>) = activeStore s"
  "activeStore (s\<lparr>stats := st\<rparr>) = activeStore s"
  "activeStore (s\<lparr>dirtyKeys := d\<rparr>) = activeStore s"
  "activeStore (s\<lparr>immediates := im\<rparr>) = activeStore s"
  by (simp_all add: activeStore_def)

lemma getApiInternal_memoryCache:
  assumes "lru_get (memoryCache s) now (getApiKey pid aid) = (entry, mc)"
  shows "memoryCache (snd (getApiInternal s now pid aid)) = mc \<or>
         (\<exists>e. memoryCache (snd (getApiInternal s now pid aid)) = lru_set mc now (getApiKey pid aid) e)"
  unfolding getApiInternal_def Let_def assms
  by (auto simp: hit_memory_def miss_memory_def hit_persistent_def removeFromDisk_def
      split: option.splits)

lemma getApiInternal_mem_wf:
  assumes wf: "lru_wf t (memoryCache s)" and le: "t \<le> now"
  shows "lru_wf now (memoryCache (snd (getApiInternal s now pid aid)))"
proof -
  obtain entry mc where g: "lru_get (memoryCache s) now (getApiKey pid aid) = (entry, mc)"
    by force
  have mc: "lru_wf now mc" using lru_wf_get[OF wf le, of "getApiKey pid aid"] g by simp
  then have "lru_wf now (lru_set mc now (getApiKey pid aid) e)" for e
    by (rule lru_wf_set) simp
  with mc getApiInternal_memoryCache[OF g] show ?thesis by auto
qed

lemma getApiInternal_mem_max [simp]:
  "lru_max (memoryCache (snd (getApiInternal s now pid aid))) = lru_max (memoryCache s)"
proof -
  obtain entry mc where g: "lru_get (memoryCache s) now (getApiKey pid aid) = (entry, mc)"
    by force
  have "lru_max mc = lru_max (memoryCache s)"
    using lru_max_get[of "memoryCache s" now "getApiKey pid aid"] g by simp
  with getApiInternal_memoryCache[OF g] show ?thesis by auto
qed

lemma svc_inv_getApiInternal:
  "svc_inv options t s \<Longrightarrow> t \<le> now \<Longrightarrow> svc_inv options now (snd (getApiInternal s now pid aid))"
  using getApiInternal_mem_wf[of t s now pid aid] by (simp add: svc_inv_def)

lemma svc_inv_getApi:
  "svc_inv options t s \<Longrightarrow> t \<le> now \<Longrightarrow> svc_inv options now (snd (getApi s now pid aid))"
  by (simp add: getApi_def svc_inv_getApiInternal svc_inv_mono)

lemma same_core_refl [simp]: "same_core s s"
  by (simp add: same_core_def)

lemma findByName_preserves:
  assumes core: "\<And>s2. same_core s s2 \<Longrightarrow> Q s2"
    and g: "\<And>s2 p a. Q s2 \<Longrightarrow> Q (snd (getApiInternal s2 now p a))"
    and h: "\<And>s2. Q s2 \<Longrightarrow> Q (hit_memory s2)"
    and m: "\<And>s2. Q s2 \<Longrightarrow> Q (miss_memory s2)"
  shows "Q (snd (findByName s now pid nm))"
proof (cases "enabled s")
  case False
  then show ?thesis using core[of s] by (simp add: findByName_def)
next
  case True
  obtain index ni where i: "lru_get (nameIndex s) now (getNameKey pid nm) = (index, ni)"
    by force
  have tail: "Q (snd (case rs of (result, s3) \<Rightarrow>
                (case result of Some r \<Rightarrow> (Some r, s3)
                 | None \<Rightarrow> (case fuzzySearchByName s3 now pid nm of
                      Some fuzzyResult \<Rightarrow> (Some (fuzzyResult, Memory), hit_memory s3)
                    | None \<Rightarrow> (None, miss_memory s3)))))"
    if "Q (snd rs)" for rs
    using that h m by (cases rs) (auto split: option.splits)
  have q1: "Q (s\<lparr>nameIndex := ni\<rparr>)" by (rule core) (simp add: same_core_def)
  have tail0: "Q (snd (case fuzzySearchByName s3 now pid nm of
                      None \<Rightarrow> (None, miss_memory s3)
                    | Some fuzzyResult \<Rightarrow> (Some (fuzzyResult, Memory), hit_memory s3)))"
    if "Q s3" for s3
    using that h m by (auto split: option.splits)
  show ?thesis
  proof (cases index)
    case (Some ix)
    show ?thesis
      unfolding findByName_def Let_def i Some using True
      by (simp add: tail g q1)
  next
    case None
    show ?thesis
    proof (cases "activeStore s")
      case N2: None
      show ?thesis
        unfolding findByName_def Let_def i None using True N2
        by (simp add: tail0 q1)
    next
      case (Some cache)
      show ?thesis
      proof (cases "map_of (disk_nameIndex cache) (getNameKey pid nm)")
        case N3: None
        show ?thesis
          unfolding findByName_def Let_def i None using True Some N3
          by (simp add: tail0 q1)
      next
        case S3: (Some ix)
        have q2: "Q ((hit_persistent (s\<lparr>nameIndex := ni\<rparr>))\<lparr>nameIndex := x\<rparr>)" for x
          by (rule core) (simp add: same_core_def hit_persistent_def)
        show ?thesis
          unfolding findByName_def Let_def i None using True Some S3
          by (simp add: tail g q2)
      qed
    qed
  qed
qed

lemma findByUrl_preserves:
  assumes core: "\<And>s2. same_core s s2 \<Longrightarrow> Q s2"
    and g: "\<And>s2 p a. Q s2 \<Longrightarrow> Q (snd (getApiInternal s2 now p a))"
    and m: "\<And>s2. Q s2 \<Longrightarrow> Q (miss_memory s2)"
  shows "Q (snd (findByUrl H s now u))"
proof (cases "enabled s")
  case False
  then show ?thesis using core[of s] by (simp add: findByUrl_def)
next
  case True
  obtain index ui where i: "lru_get (urlIndex s) now (getUrlKey H u) = (index, ui)"
    by force
  have q1: "Q (s\<lparr>urlIndex := ui\<rparr>)" by (rule core) (simp add: same_core_def)
  show ?thesis
  proof (cases index)
    case (Some ix)
    show ?thesis
      unfolding findByUrl_def Let_def i Some using True
      by (simp add: g q1)
  next
    case None
    show ?thesis
    proof (cases "activeStore s")
      case N2: None
      show ?thesis
        unfolding findByUrl_def Let_def i None using True N2
        by (simp add: m q1)
    next
      case (Some cache)
      show ?thesis
      proof (cases "map_of (disk_urlIndex cache) (getUrlKey H u)")
        case N3: None
        show ?thesis
          unfolding findByUrl_def Let_def i None using True Some N3
          by (simp add: m q1)
      next
        case S3: (Some ix)
        have q2: "Q ((hit_persistent (s\<lparr>urlIndex := ui\<rparr>))\<lparr>urlIndex := x\<rparr>)" for x
          by (rule core) (simp add: same_core_def hit_persistent_def)
        show ?thesis
          unfolding findByUrl_def Let_def i None using True Some S3
          by (simp add: g q2)
      qed
    qed
  qed
qed

lemma findByPath_preserves:
  assumes core: "\<And>s2. same_core s s2 \<Longrightarrow> Q s2"
    and g: "\<And>s2 p a. Q s2 \<Longrightarrow> Q (snd (getApiInternal s2 now p a))"
    and m: "\<And>s2. Q s2 \<Longrightarrow> Q (miss_memory s2)"
  shows "Q (snd (findByPath s now pid mth p))"
proof (cases "enabled s")
  case False
  then show ?thesis using core[of s] by (simp add: findByPath_def)
next
  case True
  obtain index pix where i: "lru_get (pathIndex s) now (getPathKey pid mth p) = (index, pix)"
    by force
  have q1: "Q (s\<lparr>pathIndex := pix\<rparr>)" by (rule core) (simp add: same_core_def)
  show ?thesis
  proof (cases index)
    case (Some ix)
    show ?thesis
      unfolding findByPath_def Let_def i Some using True
      by (simp add: g q1)
  next
    case None
    show ?thesis
    proof (cases "activeStore s")
      case N2: None
      show ?thesis
        unfolding findByPath_def Let_def i None using True N2
        by (simp add: m q1)
    next
      case (Some cache)
      show ?thesis
      proof (cases "map_of (disk_pathIndex cache) (getPathKey pid mth p)")
        case N3: None
        show ?thesis
          unfolding findByPath_def Let_def i None using True Some N3
          by (simp add: m q1)
      next
        case S3: (Some ix)
        have q2: "Q ((hit_persistent (s\<lparr>pathIndex := pix\<rparr>))\<lparr>pathIndex := x\<rparr>)" for x
          by (rule core) (simp add: same_core_def hit_persistent_def)
        show ?thesis
          unfolding findByPath_def Let_def i None using True Some S3
          by (simp add: g q2)
      qed
    qed
  qed
qed

lemma svc_inv_same_core: "svc_inv options t s \<Longrightarrow> same_core s s' \<Longrightarrow> svc_inv options t s'"
  by (simp add: svc_inv_def same_core_def)

lemma svc_inv_hit_memory: "svc_inv options t s \<Longrightarrow> svc_inv options t (hit_memory s)"
  by (simp add: svc_inv_def hit_memory_def)

lemma svc_inv_miss_memory: "svc_inv options t s \<Longrightarrow> svc_inv options t (miss_memory s)"
  by (simp add: svc_inv_def miss_memory_def)

lemma svc_inv_findByName:
  assumes inv: "svc_inv options t s" and le: "t \<le> now"
  shows "svc_inv options now (snd (findByName s now pid nm))"
  by (rule findByName_preserves)
     (auto intro: svc_inv_same_core[OF svc_inv_mono[OF inv le]] svc_inv_getApiInternal
        svc_inv_hit_memory svc_inv_miss_memory)

lemma svc_inv_findByUrl:
  assumes inv: "svc_inv options t s" and le: "t \<le> now"
  shows "svc_inv options now (snd (findByUrl H s now u))"
  by (rule findByUrl_preserves)
     (auto intro: svc_inv_same_core[OF svc_inv_mono[OF inv le]] svc_inv_getApiInternal
        svc_inv_miss_memory)

lemma svc_inv_findByPath:
  assumes inv: "svc_inv options t s" and le: "t \<le> now"
  shows "svc_inv options now (snd (findByPath s now pid mth p))"
  by (rule findByPath_preserves)
     (auto intro: svc_inv_same_core[OF svc_inv_mono[OF inv le]] svc_inv_getApiInternal
        svc_inv_miss_memory)


lemma syncIndexesToDisk_frame [simp]:
  "memoryCache (syncIndexesToDisk H s oc e) = memoryCache s"
  "enabled (syncIndexesToDisk H s oc e) = enabled s"
  "dirtyKeys (syncIndexesToDisk H s oc e) = dirtyKeys s"
  by (simp_all add: syncIndexesToDisk_def Let_def split: option.splits)

lemma syncToDisk_frame [simp]:
  "memoryCache (syncToDisk H s oc k e) = memoryCache s"
  "enabled (syncToDisk H s oc k e) = enabled s"
  by (simp_all add: syncToDisk_def Let_def split: option.splits)

lemma svc_inv_setApi:
  assumes inv: "svc_inv options t s" and le: "t \<le> now"
  shows "svc_inv options now (setApi H s now entry)"
proof (cases "enabled s")
  case False
  then show ?thesis using svc_inv_mono[OF inv le] by (simp add: setApi_def)
next
  case True
  have wf: "lru_wf t (memoryCache s)" using inv by (simp add: svc_inv_def)
  show ?thesis
    using inv True lru_wf_set[OF wf le]
    by (simp add: setApi_def Let_def svc_inv_def)
qed

lemma svc_inv_clear: "svc_inv options t s \<Longrightarrow> svc_inv options t (clear s)"
  by (simp add: svc_inv_def clear_def lru_wf_clear)

lemma clearLoop_wf:
  "lru_wf t mc \<Longrightarrow> lru_wf t (fst (clearLoop pre ks (mc, n)))"
  by (induction ks arbitrary: mc n) (auto simp: lru_wf_delete)

lemma clearLoop_max [simp]:
  "lru_max (fst (clearLoop pre ks (mc, n))) = lru_max mc"
  by (induction ks arbitrary: mc n) auto

lemma svc_inv_clearProject:
  assumes inv: "svc_inv options t s"
  shows "svc_inv options t (snd (clearProject s now pid))"
proof -
  obtain mc n where c: "clearLoop (''api:'' @ pid @ '':'') (lru_keys (memoryCache s) now) (memoryCache s, 0) = (mc, n)"
    by force
  have wf: "lru_wf t (memoryCache s)" using inv by (simp add: svc_inv_def)
  have mc: "mc = fst (clearLoop (''api:'' @ pid @ '':'') (lru_keys (memoryCache s) now) (memoryCache s, 0))"
    by (simp only: c fst_conv)
  have "lru_wf t mc" "lru_max mc = lru_max (memoryCache s)"
    unfolding mc by (rule clearLoop_wf[OF wf], rule clearLoop_max)
  then show ?thesis
    using inv unfolding clearProject_def Let_def c by (simp add: svc_inv_def)
qed

lemma svc_inv_clearByUrl:
  assumes inv: "svc_inv options t s" and le: "t \<le> now"
  shows "svc_inv options now (snd (clearByUrl H s now u))"
proof -
  have i: "svc_inv options now s" by (rule svc_inv_mono[OF inv le])
  have wf: "lru_wf now (memoryCache s)" using i by (simp add: svc_inv_def)
  show ?thesis
    using i lru_wf_delete[OF wf]
    by (simp add: clearByUrl_def Let_def svc_inv_def split: prod.splits option.splits)
qed

lemma svc_inv_runImmediate: "svc_inv options t s \<Longrightarrow> svc_inv options t (runImmediate H s oc)"
  by (simp add: runImmediate_def svc_inv_def split: list.splits prod.splits)

lemma svc_inv_syncDirty:
  "svc_inv options now s \<Longrightarrow> svc_inv options now (syncDirty H oc now ks s)"
proof (induction ks arbitrary: s)
  case Nil
  then show ?case by simp
next
  case (Cons k ks)
  obtain entry mc where g: "lru_get (memoryCache s) now k = (entry, mc)" by force
  have "lru_wf now (memoryCache s)" using Cons.prems by (simp add: svc_inv_def)
  from lru_wf_get[OF this order_refl, of k] have "lru_wf now mc" using g by simp
  moreover have "lru_max mc = lru_max (memoryCache s)"
    using lru_max_get[of "memoryCache s" now k] g by simp
  ultimately have s1: "svc_inv options now (s\<lparr>memoryCache := mc\<rparr>)"
    using Cons.prems by (simp add: svc_inv_def)
  have "svc_inv options now (case entry of None \<Rightarrow> s\<lparr>memoryCache := mc\<rparr>
      | Some e \<Rightarrow> syncToDisk H (s\<lparr>memoryCache := mc\<rparr>) (oc k) k e)"
    using s1 by (simp add: svc_inv_def split: option.splits)
  from Cons.IH[OF this] show ?case by (simp add: g Let_def)
qed

lemma svc_inv_syncTimerTick:
  "svc_inv options t s \<Longrightarrow> t \<le> now \<Longrightarrow> svc_inv options now (syncTimerTick H s now oc)"
  by (simp add: syncTimerTick_def svc_inv_syncDirty svc_inv_mono)

lemma svc_inv_shutdown:
  assumes "svc_inv options t s" "t \<le> now"
  shows "svc_inv options now (shutdown H s now oc)"
proof -
  have "svc_inv options now (s\<lparr>syncTimer := False\<rparr>)"
    using svc_inv_mono[OF assms] by (simp add: svc_inv_def)
  then show ?thesis by (simp add: shutdown_def Let_def svc_inv_syncDirty)
qed

lemma svc_inv_exec:
  "svc_inv options t s \<Longrightarrow> t \<le> now \<Longrightarrow> svc_inv options now (exec H s now op)"
  by (cases op)
     (simp_all add: svc_inv_setApi svc_inv_getApi svc_inv_findByUrl svc_inv_findByName
        svc_inv_findByPath svc_inv_clearByUrl svc_inv_syncTimerTick svc_inv_shutdown
        svc_inv_mono[OF svc_inv_clear] svc_inv_mono[OF svc_inv_clearProject]
        svc_inv_mono[OF svc_inv_runImmediate])

lemma loadLoop_wf:
  "lru_wf now mc \<Longrightarrow> lru_wf now (fst (loadLoop s now xs (mc, n)))"
  by (induction xs arbitrary: mc n) (auto simp: lru_wf_set)

lemma loadLoop_max [simp]: "lru_max (fst (loadLoop s now xs (mc, n))) = lru_max mc"
  by (induction xs arbitrary: mc n) auto

lemma cleanupExpiredDiskCache_frame [simp]:
  "memoryCache (cleanupExpiredDiskCache s now) = memoryCache s"
  "enabled (cleanupExpiredDiskCache s now) = enabled s"
  by (simp_all add: cleanupExpiredDiskCache_def split: option.splits)

lemma loadFromDisk_inv:
  assumes "svc_inv options now s"
  shows "svc_inv options now (loadFromDisk s now)"
proof (cases "persistentStore s")
  case None
  then show ?thesis using assms by (simp add: loadFromDisk_def)
next
  case (Some cache)
  obtain mc n where l: "loadLoop s now (apis cache) (memoryCache s, 0) = (mc, n)" by force
  have wf: "lru_wf now (memoryCache s)" using assms by (simp add: svc_inv_def)
  have mc: "mc = fst (loadLoop s now (apis cache) (memoryCache s, 0))"
    by (simp only: l fst_conv)
  have "lru_wf now mc" "lru_max mc = lru_max (memoryCache s)"
    unfolding mc by (rule loadLoop_wf[OF wf], rule loadLoop_max)
  then show ?thesis using assms Some l by (simp add: loadFromDisk_def svc_inv_def Let_def)
qed

lemma orDefault_nonzero: "d \<noteq> 0 \<Longrightarrow> orDefault v d \<noteq> 0"
  by (simp add: orDefault_def split: option.splits)

lemma svc_inv_new:
  assumes "CacheService_new options storage t0 = Inr s"
  shows "svc_inv options t0 s"
proof -
  let ?ttl = "orDefault (opt_ttl options) (60 * 60 * 1000)"
  let ?m = "orDefault (opt_maxSize options) 200"
  have nz: "?ttl \<noteq> 0" "?m \<noteq> 0" by (simp_all add: orDefault_nonzero)
  have ok: "\<not> (?m < 0 \<or> ?ttl < 0)"
    using assms by (auto simp: CacheService_new_def Let_def)
  then have pos: "0 < ?m" "0 < ?ttl" using nz by auto
  have wf: "lru_wf t0 (lru_new (nat ?m) ?ttl)"
    using pos by (simp add: lru_wf_def lru_new_def)
  have base: "svc_inv options t0 s0"
    if "memoryCache s0 = lru_new (nat ?m) ?ttl" "enabled s0 = (opt_enabled options \<noteq> Some False)" for s0
    using that wf by (simp add: svc_inv_def lru_new_def)
  have L: "svc_inv options t0 ((loadFromDisk S t0)\<lparr>syncTimer := True\<rparr>)"
    if "memoryCache S = lru_new (nat ?m) ?ttl" "enabled S = (opt_enabled options \<noteq> Some False)" for S
    using loadFromDisk_inv[OF base[OF that]] by (simp add: svc_inv_def)
  show ?thesis
  proof (cases "opt_persistent options \<noteq> Some False")
    case False
    then show ?thesis using assms ok by (auto simp: CacheService_new_def Let_def intro!: base)
  next
    case True
    show ?thesis
    proof (cases storage)
      case None
      then show ?thesis using assms ok True
        by (auto simp: CacheService_new_def Let_def intro!: base)
    next
      case (Some cache)
      have "s = (loadFromDisk
            (\<lparr>enabled = (opt_enabled options \<noteq> Some False),
                     persistentEnabled = (opt_persistent options \<noteq> Some False),
                     ttl = ?ttl,
                     syncInterval = orDefault (opt_syncInterval options) 30000,
                     memoryCache = lru_new (nat ?m) ?ttl,
                     urlIndex = lru_new (nat (?m * 2)) ?ttl,
                     nameIndex = lru_new (nat (?m * 2)) ?ttl,
                     pathIndex = lru_new (nat (?m * 2)) ?ttl,
                     persistentStore = None,
                     syncTimer = False,
                     dirtyKeys = [],
                     stats = \<lparr>memory_hits = 0, memory_misses = 0,
                              persistent_hits = 0, persistent_misses = 0\<rparr>,
                     immediates = []\<rparr>\<lparr>persistentStore := Some cache\<rparr>) t0)\<lparr>syncTimer := True\<rparr>"
        using assms ok True Some by (simp add: CacheService_new_def Let_def)
      then show ?thesis by (simp only:) (rule L, simp_all)
    qed
  qed
qed

lemma reachable_svc_inv: "reachable H options t s \<Longrightarrow> svc_inv options t s"
  by (induction rule: reachable.induct) (auto intro: svc_inv_new svc_inv_exec)

subsection \<open>The memory tier uses the service's ttl\<close>

lemma lru_ttl_set [simp]: "lru_ttl (lru_set c now k v) = lru_ttl c"
  by (simp add: lru_set_def Let_def split: option.splits)

lemma lru_ttl_get [simp]: "lru_ttl (snd (lru_get c now k)) = lru_ttl c"
  by (simp add: lru_get_def split: option.splits prod.splits)

lemma lru_ttl_delete [simp]: "lru_ttl (lru_delete c k) = lru_ttl c"
  by (simp add: lru_delete_def)

lemma lru_ttl_clear [simp]: "lru_ttl (lru_clear c) = lru_ttl c"
  by (simp add: lru_clear_def)

lemma getApiInternal_ttl [simp]: "ttl (snd (getApiInternal s now pid aid)) = ttl s"
  by (simp add: getApiInternal_def Let_def hit_memory_def miss_memory_def hit_persistent_def
      removeFromDisk_def split: option.splits prod.splits)

lemma getApiInternal_mem_ttl [simp]:
  "lru_ttl (memoryCache (snd (getApiInternal s now pid aid))) = lru_ttl (memoryCache s)"
proof -
  obtain entry mc where g: "lru_get (memoryCache s) now (getApiKey pid aid) = (entry, mc)"
    by force
  have "lru_ttl mc = lru_ttl (memoryCache s)"
    using lru_ttl_get[of "memoryCache s" now "getApiKey pid aid"] g by simp
  with getApiInternal_memoryCache[OF g] show ?thesis by auto
qed

lemma ttl_inv_getApiInternal: "ttl_inv s \<Longrightarrow> ttl_inv (snd (getApiInternal s now pid aid))"
  by (simp add: ttl_inv_def)

lemma ttl_inv_same_core: "ttl_inv s \<Longrightarrow> same_core s s' \<Longrightarrow> ttl_inv s'"
  by (simp add: ttl_inv_def same_core_def)

lemma ttl_inv_hit_memory: "ttl_inv s \<Longrightarrow> ttl_inv (hit_memory s)"
  by (simp add: ttl_inv_def hit_memory_def)

lemma ttl_inv_miss_memory: "ttl_inv s \<Longrightarrow> ttl_inv (miss_memory s)"
  by (simp add: ttl_inv_def miss_memory_def)

lemma syncToDisk_ttl [simp]: "ttl (syncToDisk H s oc k e) = ttl s"
  by (simp add: syncToDisk_def syncIndexesToDisk_def Let_def split: option.splits)

lemma ttl_inv_syncDirty: "ttl_inv s \<Longrightarrow> ttl_inv (syncDirty H oc now ks s)"
proof (induction ks arbitrary: s)
  case Nil
  then show ?case by simp
next
  case (Cons k ks)
  obtain entry mc where g: "lru_get (memoryCache s) now k = (entry, mc)" by force
  have "lru_ttl mc = lru_ttl (memoryCache s)"
    using lru_ttl_get[of "memoryCache s" now k] g by simp
  then have "ttl_inv (case entry of None \<Rightarrow> s\<lparr>memoryCache := mc\<rparr>
      | Some e \<Rightarrow> syncToDisk H (s\<lparr>memoryCache := mc\<rparr>) (oc k) k e)"
    using Cons.prems by (simp add: ttl_inv_def split: option.splits)
  from Cons.IH[OF this] show ?case by (simp add: g Let_def)
qed

lemma clearLoop_ttl [simp]: "lru_ttl (fst (clearLoop pre ks (mc, n))) = lru_ttl mc"
  by (induction ks arbitrary: mc n) auto

lemma loadLoop_ttl [simp]: "lru_ttl (fst (loadLoop s now xs (mc, n))) = lru_ttl mc"
  by (induction xs arbitrary: mc n) auto

lemma ttl_inv_exec: "ttl_inv s \<Longrightarrow> ttl_inv (exec H s now op)"
proof (cases op)
  case (SetApi e)
  assume "ttl_inv s"
  then show ?thesis using SetApi by (simp add: setApi_def Let_def ttl_inv_def)
next
  case (GetApi p a)
  assume "ttl_inv s"
  then show ?thesis using GetApi by (simp add: getApi_def ttl_inv_getApiInternal)
next
  case (FindByUrl u)
  assume i: "ttl_inv s"
  show ?thesis unfolding FindByUrl exec.simps
    by (rule findByUrl_preserves)
       (auto intro: ttl_inv_same_core[OF i] ttl_inv_getApiInternal ttl_inv_miss_memory)
next
  case (FindByName p n)
  assume i: "ttl_inv s"
  show ?thesis unfolding FindByName exec.simps
    by (rule findByName_preserves)
       (auto intro: ttl_inv_same_core[OF i] ttl_inv_getApiInternal ttl_inv_miss_memory
          ttl_inv_hit_memory)
next
  case (FindByPath p m q)
  assume i: "ttl_inv s"
  show ?thesis unfolding FindByPath exec.simps
    by (rule findByPath_preserves)
       (auto intro: ttl_inv_same_core[OF i] ttl_inv_getApiInternal ttl_inv_miss_memory)
next
  case Clear
  assume "ttl_inv s"
  then show ?thesis using Clear by (simp add: clear_def ttl_inv_def)
next
  case (ClearProject p)
  assume i: "ttl_inv s"
  obtain mc n where c: "clearLoop (''api:'' @ p @ '':'') (lru_keys (memoryCache s) now) (memoryCache s, 0) = (mc, n)"
    by force
  have mc: "mc = fst (clearLoop (''api:'' @ p @ '':'') (lru_keys (memoryCache s) now) (memoryCache s, 0))"
    by (simp only: c fst_conv)
  have "lru_ttl mc = lru_ttl (memoryCache s)" unfolding mc by (rule clearLoop_ttl)
  then show ?thesis using i unfolding ClearProject exec.simps clearProject_def Let_def c
    by (simp add: ttl_inv_def)
next
  case (ClearByUrl u)
  assume "ttl_inv s"
  then show ?thesis using ClearByUrl
    by (simp add: clearByUrl_def Let_def ttl_inv_def split: prod.splits option.splits)
next
  case (RunImmediate oc)
  assume "ttl_inv s"
  then show ?thesis using RunImmediate
    by (simp add: runImmediate_def ttl_inv_def split: list.splits prod.splits)
next
  case (SyncTimerTick oc)
  assume "ttl_inv s"
  then show ?thesis using SyncTimerTick by (simp add: syncTimerTick_def ttl_inv_syncDirty)
next
  case (Shutdown oc)
  assume "ttl_inv s"
  then have "ttl_inv (s\<lparr>syncTimer := False\<rparr>)" by (simp add: ttl_inv_def)
  then show ?thesis using Shutdown by (simp add: shutdown_def Let_def ttl_inv_syncDirty)
qed

lemma loadFromDisk_ttl_inv: "ttl_inv s \<Longrightarrow> ttl_inv (loadFromDisk s now)"
proof (cases "persistentStore s")
  case None
  assume "ttl_inv s"
  then show ?thesis using None by (simp add: loadFromDisk_def)
next
  case (Some cache)
  assume i: "ttl_inv s"
  obtain mc n where l: "loadLoop s now (apis cache) (memoryCache s, 0) = (mc, n)" by force
  have mc: "mc = fst (loadLoop s now (apis cache) (memoryCache s, 0))"
    by (simp only: l fst_conv)
  have "lru_ttl mc = lru_ttl (memoryCache s)" unfolding mc by (rule loadLoop_ttl)
  then show ?thesis using i Some l
    by (simp add: loadFromDisk_def ttl_inv_def Let_def cleanupExpiredDiskCache_def)
qed

lemma ttl_inv_new:
  assumes "CacheService_new options storage t0 = Inr s"
  shows "ttl_inv s"
proof -
  have L: "ttl_inv ((loadFromDisk S t0)\<lparr>syncTimer := True\<rparr>)" if "ttl_inv S" for S
    using loadFromDisk_ttl_inv[OF that] by (simp add: ttl_inv_def)
  show ?thesis
    using assms
    by (auto simp: CacheService_new_def Let_def lru_new_def split: if_splits option.splits
        intro!: L) (simp_all add: ttl_inv_def)
qed

lemma reachable_ttl_inv: "reachable H options t s \<Longrightarrow> ttl_inv s"
  by (induction rule: reachable.induct) (auto intro: ttl_inv_new ttl_inv_exec)

subsection \<open>A disabled cache\<close>

lemma ex_new_off: "CacheService_new ex_options_off None 1000 = Inr ex_state_off"
  by (simp add: CacheService_new_def ex_options_off_def ex_state_off_def orDefault_def Let_def)

text \<open>
  Claim C10. When the cache is constructed with \<open>enabled: false\<close>, then in every
  state it can reach the four lookups \<open>getApi\<close>, \<open>findByUrl\<close>, \<open>findByName\<close>
  and \<open>findByPath\<close> return nothing for every input, and they, \<open>setApi\<close> and
  \<open>clearByUrl\<close> leave the whole state (both tiers, all indexes, the dirty set
  and the statistics) exactly as it was.
\<close>

theorem disabled_cache_is_inert:
  assumes r: "reachable H options t s" and off: "opt_enabled options = Some False"
  shows "getApi s now pid aid = (None, s) \<and>
         findByUrl H s now u = (None, s) \<and>
         findByName s now pid nm = (None, s) \<and>
         findByPath s now pid mth p = (None, s) \<and>
         setApi H s now entry = s \<and>
         clearByUrl H s now u = (False, s)"
proof -
  have "\<not> enabled s" using reachable_svc_inv[OF r] off by (simp add: svc_inv_def)
  then show ?thesis
    by (simp add: getApi_def findByUrl_def findByName_def findByPath_def setApi_def clearByUrl_def)
qed

theorem disabled_cache_is_inert_witness:
  "reachable id ex_options_off 1000 ex_state_off \<and>
   opt_enabled ex_options_off = Some False \<and>
   getApi ex_state_off 1001 ''1'' 7 = (None, ex_state_off) \<and>
   findByUrl id ex_state_off 1001 ''u'' = (None, ex_state_off) \<and>
   findByName ex_state_off 1001 ''1'' ''Login'' = (None, ex_state_off) \<and>
   findByPath ex_state_off 1001 ''1'' ''post'' ''/login'' = (None, ex_state_off) \<and>
   setApi id ex_state_off 1001 ex_entry = ex_state_off \<and>
   clearByUrl id ex_state_off 1001 ''u'' = (False, ex_state_off)"
proof -
  have off: "opt_enabled ex_options_off = Some False" by (simp add: ex_options_off_def)
  have r: "reachable id ex_options_off 1000 ex_state_off" by (rule reachable.init[OF ex_new_off])
  show ?thesis
    using disabled_cache_is_inert[OF r off,
        where now=1001 and pid="''1''" and aid=7 and u="''u''" and nm="''Login''"
          and mth="''post''" and p="''/login''" and entry=ex_entry] off r
    by blast
qed

subsection \<open>Reading by primary key: expiry\<close>

lemma ex_key: "getApiKey ''1'' 7 = ''api:1:7''"
  by (simp add: getApiKey_def numberToString_def digits.simps)

lemma ex_new_loaded: "CacheService_new ex_options_on (Some ex_disk) 1050 = Inr ex_state_loaded"
  by (simp add: CacheService_new_def ex_options_on_def ex_state_loaded_def ex_disk_def orDefault_def
      Let_def loadFromDisk_def isExpired_def ex_entry_def lru_new_def lru_size_def lru_set_def
      lru_start_def)

lemma lru_get_Some_peek: "lru_get c now k = (Some v, c') \<Longrightarrow> lru_peek c k = Some v"
  by (auto simp: lru_get_def lru_peek_def split: option.splits prod.splits if_splits)

lemma isExpired_frame [simp]:
  "isExpired (s\<lparr>memoryCache := mc\<rparr>) now e = isExpired s now e"
  by (simp add: isExpired_def)

lemma getApiInternal_memory_hit:
  assumes "lru_get (memoryCache s) now (getApiKey pid aid) = (Some e, mc)" "\<not> isExpired s now e"
  shows "getApiInternal s now pid aid = (Some (e, Memory), hit_memory (s\<lparr>memoryCache := mc\<rparr>))"
  using assms by (simp add: getApiInternal_def Let_def)

lemma getApiInternal_Some:
  assumes "getApiInternal s now pid aid = (Some (e, src), s')"
  shows "\<not> isExpired s now e \<and>
         (lru_peek (memoryCache s) (getApiKey pid aid) = Some e \<or>
          (\<exists>cache. activeStore s = Some cache \<and> map_of (apis cache) (getApiKey pid aid) = Some e))"
proof -
  obtain entry mc where g: "lru_get (memoryCache s) now (getApiKey pid aid) = (entry, mc)"
    by force
  show ?thesis
    using assms lru_get_Some_peek[of "memoryCache s" now "getApiKey pid aid" _ mc] g
    unfolding getApiInternal_def Let_def g
    by (auto split: option.splits if_splits)
qed

lemma activeStore_Some: "activeStore s = Some cache \<Longrightarrow> persistentStore s = Some cache"
  by (simp add: activeStore_def split: if_splits)

text \<open>
  Claim C2. \<open>getApi\<close> never returns an entry whose age since \<open>cachedAt\<close> exceeds
  the ttl: whatever it returns is not expired, and when every copy stored under
  the key, in the memory tier and on disk, is expired, it returns nothing although
  the copies are physically there. Both tiers are judged by the one predicate
  \<open>isExpired\<close>, which looks at the entry and the clock only.
\<close>

theorem getApi_lazy_expiry:
  assumes "getApi s now pid aid = (r, s')"
  shows "(\<forall>e src. r = Some (e, src) \<longrightarrow> \<not> isExpired s now e) \<and>
         ((\<forall>e. lru_peek (memoryCache s) (getApiKey pid aid) = Some e \<longrightarrow> isExpired s now e) \<and>
          (\<forall>cache e. persistentStore s = Some cache \<longrightarrow>
                      map_of (apis cache) (getApiKey pid aid) = Some e \<longrightarrow> isExpired s now e)
          \<longrightarrow> r = None)"
proof (cases "enabled s")
  case False
  then show ?thesis using assms by (auto simp: getApi_def)
next
  case True
  then have g: "getApiInternal s now pid aid = (r, s')" using assms by (simp add: getApi_def)
  have "\<not> isExpired s now e \<and>
         (lru_peek (memoryCache s) (getApiKey pid aid) = Some e \<or>
          (\<exists>cache. persistentStore s = Some cache \<and> map_of (apis cache) (getApiKey pid aid) = Some e))"
    if "r = Some (e, src)" for e src
    using getApiInternal_Some[of s now pid aid e src s'] g that activeStore_Some by auto
  then show ?thesis by (cases r) auto
qed

theorem getApi_lazy_expiry_witness:
  "lru_peek (memoryCache ex_state_loaded) (getApiKey ''1'' 7) = Some ex_entry \<and>
   persistentStore ex_state_loaded = Some ex_disk \<and>
   map_of (apis ex_disk) (getApiKey ''1'' 7) = Some ex_entry \<and>
   isExpired ex_state_loaded 1150 ex_entry \<and>
   fst (getApi ex_state_loaded 1150 ''1'' 7) = None"
proof -
  have p: "lru_peek (memoryCache ex_state_loaded) (getApiKey ''1'' 7) = Some ex_entry"
    by (simp add: ex_key ex_state_loaded_def lru_peek_def)
  have d: "persistentStore ex_state_loaded = Some ex_disk" by (simp add: ex_state_loaded_def)
  have m: "map_of (apis ex_disk) (getApiKey ''1'' 7) = Some ex_entry"
    by (simp add: ex_key ex_disk_def)
  have x: "isExpired ex_state_loaded 1150 ex_entry"
    by (simp add: isExpired_def ex_state_loaded_def ex_entry_def)
  have "fst (getApi ex_state_loaded 1150 ''1'' 7) = None"
    using getApi_lazy_expiry[OF prod.collapse[symmetric], of ex_state_loaded 1150 "''1''" 7] p d m x
    by auto
  with p d m x show ?thesis by simp
qed


lemma getApiInternal_miss:
  assumes g: "lru_get (memoryCache s) now (getApiKey pid aid) = (entry, mc)"
    and m: "\<forall>e. entry = Some e \<longrightarrow> isExpired s now e"
  shows "activeStore s = None \<Longrightarrow>
           getApiInternal s now pid aid = (None, miss_memory (s\<lparr>memoryCache := mc\<rparr>))"
    and "activeStore s = Some cache \<Longrightarrow> map_of (apis cache) (getApiKey pid aid) = None \<Longrightarrow>
           getApiInternal s now pid aid = (None, miss_memory (s\<lparr>memoryCache := mc\<rparr>))"
    and "activeStore s = Some cache \<Longrightarrow> map_of (apis cache) (getApiKey pid aid) = Some e2 \<Longrightarrow>
         isExpired s now e2 \<Longrightarrow>
           getApiInternal s now pid aid =
             (None, miss_memory (removeFromDisk (s\<lparr>memoryCache := mc\<rparr>) (getApiKey pid aid)))"
    and "activeStore s = Some cache \<Longrightarrow> map_of (apis cache) (getApiKey pid aid) = Some e2 \<Longrightarrow>
         \<not> isExpired s now e2 \<Longrightarrow>
           getApiInternal s now pid aid =
             (Some (e2, Disk),
              (hit_persistent (s\<lparr>memoryCache := mc\<rparr>))\<lparr>memoryCache := lru_set mc now (getApiKey pid aid) e2\<rparr>)"
  using m unfolding getApiInternal_def Let_def g
  by (cases entry; simp add: hit_persistent_def)+

lemma lru_get_fresh:
  assumes "map_of (lru_items c) k = Some (v, start)" "\<not> lru_isStale c now start"
  shows "lru_get c now k = (Some v, c\<lparr>lru_items := (k, v, lru_start c now) # lru_remove k (lru_items c)\<rparr>)"
  using assms by (simp add: lru_get_def)

text \<open>
  Claim C6, as amended. On an enabled cache, a \<open>getApi\<close> that finds only expired
  copies returns nothing. The copy that the memory tier handed back stays in the
  memory tier under its key. The copy in the disk tier does not stay: when the
  persistent store is in use, the read removes the expired entry from the disk
  document.
\<close>

theorem expired_read_keeps_memory_drops_disk:
  assumes en: "enabled s"
    and res: "getApi s now pid aid = (r, s')"
    and mem: "\<forall>e. lru_peek (memoryCache s) (getApiKey pid aid) = Some e \<longrightarrow> isExpired s now e"
    and disk: "\<forall>cache e. persistentStore s = Some cache \<longrightarrow>
                 map_of (apis cache) (getApiKey pid aid) = Some e \<longrightarrow> isExpired s now e"
  shows "r = None \<and>
         (\<forall>e start. map_of (lru_items (memoryCache s)) (getApiKey pid aid) = Some (e, start) \<longrightarrow>
                     \<not> lru_isStale (memoryCache s) now start \<longrightarrow>
                     lru_peek (memoryCache s') (getApiKey pid aid) = Some e) \<and>
         (\<forall>cache e. activeStore s = Some cache \<longrightarrow>
                     map_of (apis cache) (getApiKey pid aid) = Some e \<longrightarrow>
                     persistentStore s' =
                       Some (cache\<lparr>apis := AList.delete (getApiKey pid aid) (apis cache)\<rparr>) \<and>
                     map_of (AList.delete (getApiKey pid aid) (apis cache)) (getApiKey pid aid) = None)"
proof -
  let ?key = "getApiKey pid aid"
  obtain entry mc where g: "lru_get (memoryCache s) now ?key = (entry, mc)" by force
  have m: "\<forall>e. entry = Some e \<longrightarrow> isExpired s now e"
    using mem lru_get_Some_peek[of "memoryCache s" now ?key _ mc] g by auto
  have gi: "getApiInternal s now pid aid = (r, s')" using en res by (simp add: getApi_def)
  note miss = getApiInternal_miss[OF g m]
  have keep: "lru_peek mc ?key = Some e"
    if "map_of (lru_items (memoryCache s)) ?key = Some (e, start)"
       "\<not> lru_isStale (memoryCache s) now start" for e start
    using lru_get_fresh[OF that] g by (auto simp: lru_peek_def)
  have del: "map_of (AList.delete ?key xs) ?key = None" for xs :: "(string \<times> CachedApiEntry) list"
    by (simp add: delete_conv)
  show ?thesis
  proof (cases "activeStore s")
    case None
    then show ?thesis using miss(1) gi keep by (auto simp: miss_memory_def)
  next
    case (Some cache)
    then have ps: "persistentStore s = Some cache" by (rule activeStore_Some)
    show ?thesis
    proof (cases "map_of (apis cache) ?key")
      case None
      then show ?thesis using miss(2)[OF Some] gi keep Some by (auto simp: miss_memory_def)
    next
      case (Some e2)
      have x: "isExpired s now e2" using disk ps Some by blast
      show ?thesis
        using miss(3)[OF \<open>activeStore s = Some cache\<close> Some x] gi keep Some ps
          \<open>activeStore s = Some cache\<close> del
        by (auto simp: miss_memory_def removeFromDisk_def)
    qed
  qed
qed

subsection \<open>Reading back what was written\<close>

lemma lru_set_map_of: "map_of (lru_items (lru_set c now k v)) k = Some (v, lru_start c now)"
  by (simp add: lru_set_def Let_def split: option.splits)

lemma setApi_enabled_frame:
  assumes "enabled s"
  shows "memoryCache (setApi H s now e) =
           lru_set (memoryCache s) now (getApiKey (projectId (metadata e)) (apiId (metadata e))) e"
    and "ttl (setApi H s now e) = ttl s" and "enabled (setApi H s now e)"
  using assms by (simp_all add: setApi_def Let_def)

lemma runImmediate_frame [simp]:
  "memoryCache (runImmediate H s oc) = memoryCache s"
  "ttl (runImmediate H s oc) = ttl s"
  "enabled (runImmediate H s oc) = enabled s"
  by (simp_all add: runImmediate_def split: list.splits prod.splits)

lemma getApi_after_set:
  assumes en: "enabled s'" and t: "lru_ttl c = ttl s'"
    and mc: "memoryCache s' = lru_set c tw (getApiKey (projectId (metadata entry)) (apiId (metadata entry))) entry"
    and w: "tr - tw \<le> ttl s'" and a: "tr - cachedAt (metadata entry) \<le> ttl s'"
  shows "fst (getApi s' tr (projectId (metadata entry)) (apiId (metadata entry))) = Some (entry, Memory)"
proof -
  let ?key = "getApiKey (projectId (metadata entry)) (apiId (metadata entry))"
  have f: "map_of (lru_items (memoryCache s')) ?key = Some (entry, lru_start c tw)"
    unfolding mc by (rule lru_set_map_of)
  have ns: "\<not> lru_isStale (memoryCache s') tr (lru_start c tw)"
    using w t by (simp add: lru_isStale_def lru_start_def mc)
  have nx: "\<not> isExpired s' tr entry" using a by (simp add: isExpired_def)
  show ?thesis
    using getApiInternal_memory_hit[OF lru_get_fresh[OF f ns] nx] en by (simp add: getApi_def)
qed

text \<open>
  Claim C1, as amended. In every reachable state of a cache that was not
  constructed with \<open>enabled: false\<close>: an entry written by \<open>setApi\<close> at time \<open>tw\<close> and
  read back by \<open>getApi\<close> with the same \<open>projectId\<close> and \<open>apiId\<close> at time \<open>tr\<close> is
  returned from the memory tier, equal to what was written, provided that the
  ttl has elapsed neither since the write nor since the entry's own \<open>cachedAt\<close>
  stamp. This holds whether or not the deferred disk write has run in between,
  and whatever its outcome.
\<close>

theorem put_then_get_within_ttl:
  assumes r: "reachable H options t s" and en: "opt_enabled options \<noteq> Some False"
    and w: "tr - tw \<le> ttl s" and a: "tr - cachedAt (metadata entry) \<le> ttl s"
  shows "fst (getApi (setApi H s tw entry) tr (projectId (metadata entry)) (apiId (metadata entry)))
           = Some (entry, Memory) \<and>
         fst (getApi (runImmediate H (setApi H s tw entry) outcome) tr
                (projectId (metadata entry)) (apiId (metadata entry)))
           = Some (entry, Memory)"
proof -
  have e: "enabled s" using reachable_svc_inv[OF r] en by (simp add: svc_inv_def)
  have t: "lru_ttl (memoryCache s) = ttl s" using reachable_ttl_inv[OF r] by (simp add: ttl_inv_def)
  note f = setApi_enabled_frame[OF e, of H tw entry]
  have 1: "fst (getApi (setApi H s tw entry) tr (projectId (metadata entry)) (apiId (metadata entry)))
           = Some (entry, Memory)"
    by (rule getApi_after_set[where c="memoryCache s" and tw=tw]) (use f t w a in simp_all)
  have 2: "fst (getApi (runImmediate H (setApi H s tw entry) outcome) tr
                (projectId (metadata entry)) (apiId (metadata entry))) = Some (entry, Memory)"
    by (rule getApi_after_set[where c="memoryCache s" and tw=tw]) (use f t w a in simp_all)
  from 1 2 show ?thesis by simp
qed


lemma ex_new_mem: "CacheService_new ex_options_mem None 1000 = Inr ex_state_mem"
  by (simp add: CacheService_new_def ex_options_mem_def ex_state_mem_def ex_state_off_def
      orDefault_def Let_def)

lemma ex_entry_ids: "projectId (metadata ex_entry) = ''1''" "apiId (metadata ex_entry) = 7"
  "cachedAt (metadata ex_entry) = 1000"
  by (simp_all add: ex_entry_def)

theorem put_then_get_within_ttl_witness:
  "reachable id ex_options_mem 1000 ex_state_mem \<and>
   opt_enabled ex_options_mem \<noteq> Some False \<and>
   1050 - 1000 \<le> ttl ex_state_mem \<and>
   1050 - cachedAt (metadata ex_entry) \<le> ttl ex_state_mem \<and>
   fst (getApi (setApi id ex_state_mem 1000 ex_entry) 1050 ''1'' 7) = Some (ex_entry, Memory) \<and>
   fst (getApi (runImmediate id (setApi id ex_state_mem 1000 ex_entry) DiskOk) 1050 ''1'' 7)
     = Some (ex_entry, Memory)"
proof -
  have r: "reachable id ex_options_mem 1000 ex_state_mem" by (rule reachable.init[OF ex_new_mem])
  have en: "opt_enabled ex_options_mem \<noteq> Some False" by (simp add: ex_options_mem_def)
  have w: "1050 - 1000 \<le> ttl ex_state_mem" by (simp add: ex_state_mem_def ex_state_off_def)
  have a: "1050 - cachedAt (metadata ex_entry) \<le> ttl ex_state_mem"
    by (simp add: ex_state_mem_def ex_state_off_def ex_entry_def)
  show ?thesis
    using put_then_get_within_ttl[OF r en w a, where outcome=DiskOk] r en w a
    by (simp add: ex_entry_ids)
qed

text \<open>
  The claim C1 as it was stated measures the ttl from the write. An entry
  whose \<open>cachedAt\<close> stamp is older than the ttl is not returned even when it is read
  at the very instant it was written.
\<close>

theorem put_then_get_stale_stamp_counterexample:
  "CacheService_new ex_options_mem None 1000 = Inr ex_state_mem \<and>
   2000 - 2000 \<le> ttl ex_state_mem \<and>
   fst (getApi (setApi id ex_state_mem 2000 ex_entry) 2000
          (projectId (metadata ex_entry)) (apiId (metadata ex_entry))) = None"
  unfolding ex_new_mem
  by (simp add: ex_state_mem_def ex_state_off_def ex_entry_def setApi_def getApi_def
      getApiInternal_def Let_def lru_new_def lru_set_def lru_get_def lru_start_def lru_isStale_def
      isExpired_def activeStore_def hasUrl_def set_add_def miss_memory_def)

theorem expired_read_keeps_memory_drops_disk_witness:
  "enabled ex_state_loaded \<and>
   lru_peek (memoryCache ex_state_loaded) (getApiKey ''1'' 7) = Some ex_entry \<and>
   activeStore ex_state_loaded = Some ex_disk \<and>
   map_of (apis ex_disk) (getApiKey ''1'' 7) = Some ex_entry \<and>
   isExpired ex_state_loaded 1140 ex_entry \<and>
   fst (getApi ex_state_loaded 1140 ''1'' 7) = None \<and>
   lru_peek (memoryCache (snd (getApi ex_state_loaded 1140 ''1'' 7))) (getApiKey ''1'' 7) = Some ex_entry \<and>
   persistentStore (snd (getApi ex_state_loaded 1140 ''1'' 7)) = Some (ex_disk\<lparr>apis := []\<rparr>)"
proof -
  have en: "enabled ex_state_loaded" by (simp add: ex_state_loaded_def)
  have p: "lru_peek (memoryCache ex_state_loaded) (getApiKey ''1'' 7) = Some ex_entry"
    by (simp add: ex_key ex_state_loaded_def lru_peek_def)
  have i: "map_of (lru_items (memoryCache ex_state_loaded)) (getApiKey ''1'' 7) = Some (ex_entry, 1050)"
    by (simp add: ex_key ex_state_loaded_def)
  have ns: "\<not> lru_isStale (memoryCache ex_state_loaded) 1140 1050"
    by (simp add: ex_state_loaded_def lru_isStale_def)
  have d: "activeStore ex_state_loaded = Some ex_disk" "persistentStore ex_state_loaded = Some ex_disk"
    by (simp_all add: ex_state_loaded_def activeStore_def)
  have m: "map_of (apis ex_disk) (getApiKey ''1'' 7) = Some ex_entry"
    by (simp add: ex_key ex_disk_def)
  have x: "isExpired ex_state_loaded 1140 ex_entry"
    by (simp add: isExpired_def ex_state_loaded_def ex_entry_def)
  have del: "AList.delete (getApiKey ''1'' 7) (apis ex_disk) = []"
    by (simp add: ex_key ex_disk_def AList.delete_eq)
  have h1: "\<forall>e. lru_peek (memoryCache ex_state_loaded) (getApiKey ''1'' 7) = Some e \<longrightarrow>
              isExpired ex_state_loaded 1140 e"
    using p x by simp
  have h2: "\<forall>cache e. persistentStore ex_state_loaded = Some cache \<longrightarrow>
               map_of (apis cache) (getApiKey ''1'' 7) = Some e \<longrightarrow> isExpired ex_state_loaded 1140 e"
    using d m x by simp
  show ?thesis
    using expired_read_keeps_memory_drops_disk[OF en prod.collapse[symmetric] h1 h2] en p i ns d m x del
    by auto
qed

text \<open>
  The claim C6 as it was stated keeps the stale entry in whichever tier held
  it. Here the disk tier holds the expired entry before the read and no longer
  holds it afterwards.
\<close>

theorem expired_read_deletes_disk_copy_counterexample:
  "CacheService_new ex_options_on (Some ex_disk) 1050 = Inr ex_state_loaded \<and>
   map_of (apis (the (persistentStore ex_state_loaded))) ''api:1:7'' = Some ex_entry \<and>
   isExpired ex_state_loaded 1150 ex_entry \<and>
   fst (getApi ex_state_loaded 1150 ''1'' 7) = None \<and>
   map_of (apis (the (persistentStore (snd (getApi ex_state_loaded 1150 ''1'' 7))))) ''api:1:7'' = None"
  unfolding ex_new_loaded
  by (simp add: ex_key ex_state_loaded_def ex_disk_def ex_entry_def getApi_def
      getApiInternal_def Let_def lru_get_def lru_start_def lru_isStale_def lru_remove_def
      isExpired_def activeStore_def miss_memory_def removeFromDisk_def AList.delete_eq)

subsection \<open>Hit and miss counters\<close>

lemma getApiInternal_stats:
  "stats (snd (getApiInternal s now pid aid)) = counted (stats s) (fst (getApiInternal s now pid aid))"
proof -
  obtain entry mc where g: "lru_get (memoryCache s) now (getApiKey pid aid) = (entry, mc)"
    by force
  show ?thesis
    unfolding getApiInternal_def Let_def g
    by (simp add: counted_def hit_memory_def miss_memory_def hit_persistent_def removeFromDisk_def
        split: option.splits)
qed

lemma getApiInternal_stats_frame:
  "stats s' = stats s \<Longrightarrow>
   stats (snd (getApiInternal s' now pid aid)) = counted (stats s) (fst (getApiInternal s' now pid aid))"
  using getApiInternal_stats[of s' now pid aid] by simp

lemma findByUrl_stats:
  assumes en: "enabled s"
  shows "stats (snd (findByUrl H s now u)) =
           counted (if diskIndexHit (urlIndex s) disk_urlIndex s now (getUrlKey H u)
                    then (stats s)\<lparr>persistent_hits := Suc (persistent_hits (stats s))\<rparr>
                    else stats s)
             (fst (findByUrl H s now u))"
proof -
  obtain index ui where i: "lru_get (urlIndex s) now (getUrlKey H u) = (index, ui)"
    by force
  show ?thesis
  proof (cases index)
    case (Some ix)
    show ?thesis
      unfolding findByUrl_def Let_def i Some using en
      by (simp add: getApiInternal_stats_frame diskIndexHit_def i Some)
  next
    case None
    show ?thesis
    proof (cases "activeStore s")
      case N2: None
      show ?thesis
        unfolding findByUrl_def Let_def i None using en N2
        by (simp add: diskIndexHit_def counted_def miss_memory_def)
    next
      case (Some cache)
      show ?thesis
      proof (cases "map_of (disk_urlIndex cache) (getUrlKey H u)")
        case N3: None
        show ?thesis
          unfolding findByUrl_def Let_def i None using en Some N3
          by (simp add: diskIndexHit_def counted_def miss_memory_def)
      next
        case S3: (Some ix)
        show ?thesis
          unfolding findByUrl_def Let_def i None using en Some S3
          by (simp add: diskIndexHit_def i None hit_persistent_def getApiInternal_stats)
      qed
    qed
  qed
qed

lemma findByPath_stats:
  assumes en: "enabled s"
  shows "stats (snd (findByPath s now pid mth p)) =
           counted (if diskIndexHit (pathIndex s) disk_pathIndex s now (getPathKey pid mth p)
                    then (stats s)\<lparr>persistent_hits := Suc (persistent_hits (stats s))\<rparr>
                    else stats s)
             (fst (findByPath s now pid mth p))"
proof -
  obtain index pix where i: "lru_get (pathIndex s) now (getPathKey pid mth p) = (index, pix)"
    by force
  show ?thesis
  proof (cases index)
    case (Some ix)
    show ?thesis
      unfolding findByPath_def Let_def i Some using en
      by (simp add: getApiInternal_stats_frame diskIndexHit_def i Some)
  next
    case None
    show ?thesis
    proof (cases "activeStore s")
      case N2: None
      show ?thesis
        unfolding findByPath_def Let_def i None using en N2
        by (simp add: diskIndexHit_def counted_def miss_memory_def)
    next
      case (Some cache)
      show ?thesis
      proof (cases "map_of (disk_pathIndex cache) (getPathKey pid mth p)")
        case N3: None
        show ?thesis
          unfolding findByPath_def Let_def i None using en Some N3
          by (simp add: diskIndexHit_def counted_def miss_memory_def)
      next
        case S3: (Some ix)
        show ?thesis
          unfolding findByPath_def Let_def i None using en Some S3
          by (simp add: diskIndexHit_def i None hit_persistent_def getApiInternal_stats)
      qed
    qed
  qed
qed

lemma pm_getApiInternal:
  "persistent_misses (stats (snd (getApiInternal s now pid aid))) = persistent_misses (stats s)"
  by (simp add: getApiInternal_stats counted_def split: option.splits prod.splits CacheSource.splits)

lemma pm_preserved:
  "persistent_misses (stats (snd (findByUrl H s now u))) = persistent_misses (stats s)"
  "persistent_misses (stats (snd (findByName s now pid nm))) = persistent_misses (stats s)"
  "persistent_misses (stats (snd (findByPath s now pid mth p))) = persistent_misses (stats s)"
    apply (rule findByUrl_preserves; simp add: same_core_def pm_getApiInternal miss_memory_def)
   apply (rule findByName_preserves; simp add: same_core_def pm_getApiInternal miss_memory_def hit_memory_def)
  apply (rule findByPath_preserves; simp add: same_core_def pm_getApiInternal miss_memory_def)
  done

text \<open>
  Claim C5, as amended. On an enabled cache:
  \<^item> \<open>getApi\<close> changes the counters by exactly one increment: the hit counter of
    the tier that satisfied it when it succeeds, the memory-miss counter when it
    fails.
  \<^item> \<open>findByUrl\<close> and \<open>findByPath\<close> do the same, except that when their index
    entry is served by the disk index they first add one to the disk-hit
    counter, whatever the outcome of the lookup that follows.
  \<^item> None of the four lookups ever changes the disk-miss counter.
\<close>

theorem lookup_counters:
  assumes en: "enabled s"
  shows "stats (snd (getApi s now pid aid)) = counted (stats s) (fst (getApi s now pid aid)) \<and>
         stats (snd (findByUrl H s now u)) =
           counted (if diskIndexHit (urlIndex s) disk_urlIndex s now (getUrlKey H u)
                    then (stats s)\<lparr>persistent_hits := Suc (persistent_hits (stats s))\<rparr>
                    else stats s)
             (fst (findByUrl H s now u)) \<and>
         stats (snd (findByPath s now pid mth p)) =
           counted (if diskIndexHit (pathIndex s) disk_pathIndex s now (getPathKey pid mth p)
                    then (stats s)\<lparr>persistent_hits := Suc (persistent_hits (stats s))\<rparr>
                    else stats s)
             (fst (findByPath s now pid mth p)) \<and>
         persistent_misses (stats (snd (getApi s now pid aid))) = persistent_misses (stats s) \<and>
         persistent_misses (stats (snd (findByUrl H s now u))) = persistent_misses (stats s) \<and>
         persistent_misses (stats (snd (findByName s now pid nm))) = persistent_misses (stats s) \<and>
         persistent_misses (stats (snd (findByPath s now pid mth p))) = persistent_misses (stats s)"
proof (intro conjI)
  show "stats (snd (getApi s now pid aid)) = counted (stats s) (fst (getApi s now pid aid))"
    using en by (simp add: getApi_def getApiInternal_stats)
  show "persistent_misses (stats (snd (getApi s now pid aid))) = persistent_misses (stats s)"
    using en by (simp add: getApi_def pm_getApiInternal)
qed (rule findByUrl_stats[OF en] findByPath_stats[OF en] pm_preserved)+


lemma ex_keys:
  "getNameKey ''1'' ''Login'' = ''name:1:login''"
  "getPathKey ''1'' ''post'' ''/login'' = ''path:1:POST:/login''"
  "getUrlKey id ''u'' = ''url:u''"
  "trim (toLowerCase ''Login'') = ''login''"
  "toLowerCase ''Login'' = ''login''"
  "toLowerCase ''/login'' = ''/login''"
  by code_simp+

lemma ex_after_setApi:
  "setApi id ex_state_mem 1000 ex_entry =
      ex_state_mem\<lparr>
        memoryCache := \<lparr>lru_max = 2, lru_ttl = 100, lru_items = [(''api:1:7'', ex_entry, 1000)]\<rparr>,
        dirtyKeys := [''api:1:7''],
        urlIndex := \<lparr>lru_max = 4, lru_ttl = 100, lru_items = [(''url:u'', ApiIndexEntry ''1'' 7, 1000)]\<rparr>,
        nameIndex := \<lparr>lru_max = 4, lru_ttl = 100, lru_items = [(''name:1:login'', ApiIndexEntry ''1'' 7, 1000)]\<rparr>,
        pathIndex := \<lparr>lru_max = 4, lru_ttl = 100,
                      lru_items = [(''path:1:POST:/login'', ApiIndexEntry ''1'' 7, 1000)]\<rparr>\<rparr>"
  using ex_keys ex_key
  by (simp add: ex_state_mem_def ex_state_off_def ex_entry_def setApi_def Let_def
        lru_new_def lru_set_def lru_start_def activeStore_def hasUrl_def set_add_def)

lemma ex_after_clearByUrl:
  "clearByUrl id (setApi id ex_state_mem 1000 ex_entry) 1001 ''u'' =
      (True, ex_state_mem\<lparr>
        memoryCache := \<lparr>lru_max = 2, lru_ttl = 100, lru_items = []\<rparr>,
        dirtyKeys := [''api:1:7''],
        urlIndex := \<lparr>lru_max = 4, lru_ttl = 100, lru_items = []\<rparr>,
        nameIndex := \<lparr>lru_max = 4, lru_ttl = 100, lru_items = [(''name:1:login'', ApiIndexEntry ''1'' 7, 1000)]\<rparr>,
        pathIndex := \<lparr>lru_max = 4, lru_ttl = 100,
                      lru_items = [(''path:1:POST:/login'', ApiIndexEntry ''1'' 7, 1000)]\<rparr>\<rparr>)"
  unfolding ex_after_setApi
  by (simp add: ex_keys ex_key ex_state_mem_def ex_state_off_def clearByUrl_def Let_def
        lru_get_def lru_delete_def lru_remove_def lru_start_def lru_isStale_def)

theorem lookup_counters_witness:
  "enabled ex_state_loaded \<and>
   fst (getApi ex_state_loaded 1060 ''1'' 7) = Some (ex_entry, Memory) \<and>
   stats (snd (getApi ex_state_loaded 1060 ''1'' 7)) =
     \<lparr>memory_hits = 1, memory_misses = 0, persistent_hits = 0, persistent_misses = 0\<rparr> \<and>
   fst (getApi ex_state_loaded 1060 ''1'' 8) = None \<and>
   stats (snd (getApi ex_state_loaded 1060 ''1'' 8)) =
     \<lparr>memory_hits = 0, memory_misses = 1, persistent_hits = 0, persistent_misses = 0\<rparr> \<and>
   persistent_misses (stats (snd (findByName ex_state_loaded 1060 ''1'' ''Login''))) = 0"
proof -
  have en: "enabled ex_state_loaded" by (simp add: ex_state_loaded_def)
  have k8: "getApiKey ''1'' 8 = ''api:1:8''"
    by (simp add: getApiKey_def numberToString_def digits.simps)
  have h: "fst (getApi ex_state_loaded 1060 ''1'' 7) = Some (ex_entry, Memory)"
    by (simp add: ex_key ex_state_loaded_def ex_entry_def getApi_def getApiInternal_def Let_def
        lru_get_def lru_isStale_def isExpired_def hit_memory_def)
  have m: "fst (getApi ex_state_loaded 1060 ''1'' 8) = None"
    by (simp add: k8 ex_state_loaded_def ex_disk_def getApi_def getApiInternal_def Let_def
        lru_get_def activeStore_def miss_memory_def)
  have st: "stats ex_state_loaded =
      \<lparr>memory_hits = 0, memory_misses = 0, persistent_hits = 0, persistent_misses = 0\<rparr>"
    by (simp add: ex_state_loaded_def)
  show ?thesis
    using lookup_counters[OF en, where now=1060 and pid="''1''" and aid=7 and nm="''Login''"]
      lookup_counters[OF en, where now=1060 and pid="''1''" and aid=8]
    by (simp add: en h m st counted_def)
qed

text \<open>
  The claim C5 as it was stated fails for the lookups that go through an index.
  After a restart the memory indexes are empty: \<open>findByUrl\<close> succeeds from the
  memory tier and has incremented two hit counters. And a \<open>findByName\<close> whose
  index entry outlived its entry fails with the memory-miss counter incremented
  twice.
\<close>

theorem lookup_counters_counterexample:
  "CacheService_new ex_options_on (Some ex_disk) 1050 = Inr ex_state_loaded \<and>
   CacheService_new ex_options_mem None 1000 = Inr ex_state_mem \<and>
   fst (findByUrl id ex_state_loaded 1060 ''u'') = Some (ex_entry, Memory) \<and>
   stats ex_state_loaded =
     \<lparr>memory_hits = 0, memory_misses = 0, persistent_hits = 0, persistent_misses = 0\<rparr> \<and>
   stats (snd (findByUrl id ex_state_loaded 1060 ''u'')) =
     \<lparr>memory_hits = 1, memory_misses = 0, persistent_hits = 1, persistent_misses = 0\<rparr> \<and>
   fst (findByName (snd (clearByUrl id (setApi id ex_state_mem 1000 ex_entry) 1001 ''u'')) 1002 ''1'' ''Login'')
     = None \<and>
   stats (snd (clearByUrl id (setApi id ex_state_mem 1000 ex_entry) 1001 ''u'')) =
     \<lparr>memory_hits = 0, memory_misses = 0, persistent_hits = 0, persistent_misses = 0\<rparr> \<and>
   stats (snd (findByName (snd (clearByUrl id (setApi id ex_state_mem 1000 ex_entry) 1001 ''u''))
                 1002 ''1'' ''Login'')) =
     \<lparr>memory_hits = 0, memory_misses = 2, persistent_hits = 0, persistent_misses = 0\<rparr>"
proof -
  have a: "findByUrl id ex_state_loaded 1060 ''u'' =
      (Some (ex_entry, Memory),
       ex_state_loaded\<lparr>
         urlIndex := \<lparr>lru_max = 4, lru_ttl = 100, lru_items = [(''url:u'', ApiIndexEntry ''1'' 7, 1060)]\<rparr>,
         memoryCache := \<lparr>lru_max = 2, lru_ttl = 100, lru_items = [(''api:1:7'', ex_entry, 1060)]\<rparr>,
         stats := \<lparr>memory_hits = 1, memory_misses = 0, persistent_hits = 1, persistent_misses = 0\<rparr>\<rparr>)"
    by (simp add: ex_keys ex_key ex_state_loaded_def ex_disk_def ex_entry_def findByUrl_def
        getApiInternal_def Let_def lru_new_def lru_get_def lru_set_def lru_start_def lru_isStale_def
        lru_remove_def isExpired_def activeStore_def hit_memory_def hit_persistent_def)
  have b: "findByName (snd (clearByUrl id (setApi id ex_state_mem 1000 ex_entry) 1001 ''u''))
             1002 ''1'' ''Login'' =
      (None, ex_state_mem\<lparr>
        memoryCache := \<lparr>lru_max = 2, lru_ttl = 100, lru_items = []\<rparr>,
        dirtyKeys := [''api:1:7''],
        urlIndex := \<lparr>lru_max = 4, lru_ttl = 100, lru_items = []\<rparr>,
        nameIndex := \<lparr>lru_max = 4, lru_ttl = 100, lru_items = [(''name:1:login'', ApiIndexEntry ''1'' 7, 1002)]\<rparr>,
        pathIndex := \<lparr>lru_max = 4, lru_ttl = 100,
                      lru_items = [(''path:1:POST:/login'', ApiIndexEntry ''1'' 7, 1000)]\<rparr>,
        stats := \<lparr>memory_hits = 0, memory_misses = 2, persistent_hits = 0, persistent_misses = 0\<rparr>\<rparr>)"
    unfolding ex_after_clearByUrl
    by (simp add: ex_keys ex_key ex_state_mem_def ex_state_off_def findByName_def
        getApiInternal_def fuzzySearchByName_def Let_def lru_get_def lru_remove_def lru_start_def
        lru_isStale_def lru_entries_def activeStore_def miss_memory_def)
  show ?thesis
    unfolding a b ex_new_loaded ex_new_mem unfolding ex_after_clearByUrl
    by (simp add: ex_state_loaded_def ex_state_mem_def ex_state_off_def)
qed

subsection \<open>Clearing one URL\<close>

lemma ex_new_fresh: "CacheService_new ex_options_on (Some emptyCacheData) 1000 = Inr ex_state_fresh"
  by (simp add: CacheService_new_def ex_options_on_def ex_state_fresh_def ex_state_loaded_def
      emptyCacheData_def orDefault_def Let_def loadFromDisk_def lru_new_def)

lemma ex_synced: "runImmediate id (setApi id ex_state_fresh 1000 ex_entry) DiskOk = ex_state_synced"
  using ex_keys ex_key
  by (simp add: ex_state_fresh_def ex_state_synced_def ex_state_loaded_def ex_disk_def ex_entry_def
      emptyCacheData_def setApi_def runImmediate_def syncToDisk_def syncIndexesToDisk_def Let_def
      lru_new_def lru_set_def lru_start_def activeStore_def hasUrl_def set_add_def)

text \<open>
  Claim C9 says that \<open>clearByUrl\<close> on a cached URL empties the name index and the
  path index wholesale, and the comment at the end of \<open>clearByUrl\<close> says the same.
  The code does not: after an entry has been stored and written to disk,
  \<open>clearByUrl\<close> of its URL removes the entry and the URL index entry from both
  tiers and leaves the name and path index entries of that very entry in place,
  in memory and on disk.
\<close>

theorem clearByUrl_keeps_name_and_path_indexes:
  "CacheService_new ex_options_on (Some emptyCacheData) 1000 = Inr ex_state_fresh \<and>
   runImmediate id (setApi id ex_state_fresh 1000 ex_entry) DiskOk = ex_state_synced \<and>
   clearByUrl id ex_state_synced 1001 ''u'' =
     (True,
      ex_state_synced\<lparr>
        memoryCache := \<lparr>lru_max = 2, lru_ttl = 100, lru_items = []\<rparr>,
        urlIndex := \<lparr>lru_max = 4, lru_ttl = 100, lru_items = []\<rparr>,
        persistentStore := Some (ex_disk\<lparr>apis := [], disk_urlIndex := []\<rparr>)\<rparr>) \<and>
   lru_items (nameIndex (snd (clearByUrl id ex_state_synced 1001 ''u''))) =
     [(''name:1:login'', ApiIndexEntry ''1'' 7, 1000)] \<and>
   lru_items (pathIndex (snd (clearByUrl id ex_state_synced 1001 ''u''))) =
     [(''path:1:POST:/login'', ApiIndexEntry ''1'' 7, 1000)] \<and>
   map_option disk_nameIndex (persistentStore (snd (clearByUrl id ex_state_synced 1001 ''u''))) =
     Some [(''name:1:login'', ApiIndexEntry ''1'' 7)] \<and>
   map_option disk_pathIndex (persistentStore (snd (clearByUrl id ex_state_synced 1001 ''u''))) =
     Some [(''path:1:POST:/login'', ApiIndexEntry ''1'' 7)]"
proof -
  have c: "clearByUrl id ex_state_synced 1001 ''u'' =
     (True,
      ex_state_synced\<lparr>
        memoryCache := \<lparr>lru_max = 2, lru_ttl = 100, lru_items = []\<rparr>,
        urlIndex := \<lparr>lru_max = 4, lru_ttl = 100, lru_items = []\<rparr>,
        persistentStore := Some (ex_disk\<lparr>apis := [], disk_urlIndex := []\<rparr>)\<rparr>)"
    by (simp add: ex_keys ex_key ex_state_synced_def ex_state_loaded_def ex_disk_def
        clearByUrl_def Let_def lru_get_def lru_delete_def lru_remove_def lru_start_def
        lru_isStale_def AList.delete_eq)
  show ?thesis
    unfolding c ex_new_fresh
    by (simp add: ex_synced) (simp add: ex_state_synced_def ex_state_loaded_def ex_disk_def)
qed


subsection \<open>The size of the disk tier\<close>

lemma ex_keys2:
  "getApiKey ''1'' 8 = ''api:1:8''"
  "getNameKey ''1'' ''Logout'' = ''name:1:logout''"
  "getPathKey ''1'' ''post'' ''/logout'' = ''path:1:POST:/logout''"
  by code_simp+

lemma ex_synced2:
  "persistentStore (runImmediate id (setApi id ex_state_synced 1001 ex_entry2) DiskOk) = Some ex_disk2"
  using ex_keys2
  by (simp add: ex_state_synced_def ex_state_loaded_def ex_disk_def ex_disk2_def ex_entry2_def
      setApi_def runImmediate_def syncToDisk_def syncIndexesToDisk_def Let_def
      lru_new_def lru_set_def lru_start_def activeStore_def hasUrl_def set_add_def)

text \<open>
  Claim C4 says that the number of entries on disk never exceeds the configured
  \<open>persistentMaxSize\<close>. The code reads that option and only logs it. With
  \<open>persistentMaxSize = 1\<close>, two writes leave two entries on disk; the cleanup
  pass, which drops expired entries only, keeps both; and so does the next start
  of the service from that disk document.
\<close>

theorem disk_tier_exceeds_persistentMaxSize:
  "persistentMaxSize ex_options_on = 1 \<and>
   reachable id ex_options_on 1001
     (runImmediate id (setApi id (runImmediate id (setApi id ex_state_fresh 1000 ex_entry) DiskOk)
        1001 ex_entry2) DiskOk) \<and>
   map_option (length \<circ> apis)
     (persistentStore
        (runImmediate id (setApi id (runImmediate id (setApi id ex_state_fresh 1000 ex_entry) DiskOk)
           1001 ex_entry2) DiskOk)) = Some 2 \<and>
   map_option (length \<circ> apis)
     (persistentStore
        (cleanupExpiredDiskCache
           (runImmediate id (setApi id (runImmediate id (setApi id ex_state_fresh 1000 ex_entry) DiskOk)
              1001 ex_entry2) DiskOk) 1002)) = Some 2 \<and>
   (case CacheService_new ex_options_on (Some ex_disk2) 1002 of
      Inl e \<Rightarrow> None
    | Inr s \<Rightarrow> map_option (length \<circ> apis) (persistentStore s)) = Some 2"
proof -
  let ?s1 = "setApi id ex_state_fresh 1000 ex_entry"
  let ?s2 = "runImmediate id ?s1 DiskOk"
  let ?s3 = "setApi id ?s2 1001 ex_entry2"
  let ?s4 = "runImmediate id ?s3 DiskOk"
  have r0: "reachable id ex_options_on 1000 ex_state_fresh" by (rule reachable.init[OF ex_new_fresh])
  have r1: "reachable id ex_options_on 1000 ?s1"
    using reachable.step[OF r0, of 1000 "SetApi ex_entry"] by simp
  have r2: "reachable id ex_options_on 1000 ?s2"
    using reachable.step[OF r1, of 1000 "RunImmediate DiskOk"] by simp
  have r3: "reachable id ex_options_on 1001 ?s3"
    using reachable.step[OF r2, of 1001 "SetApi ex_entry2"] by simp
  have r4: "reachable id ex_options_on 1001 ?s4"
    using reachable.step[OF r3, of 1001 "RunImmediate DiskOk"] by simp
  define s4 where "s4 = ?s4"
  have p: "persistentStore s4 = Some ex_disk2" unfolding s4_def ex_synced by (rule ex_synced2)
  have st: "ttl (setApi H s now e) = ttl s" for H s now e
    by (simp add: setApi_def Let_def)
  have t: "ttl s4 = 100"
    unfolding s4_def by (simp add: st) (simp add: ex_state_fresh_def ex_state_loaded_def)
  have c: "persistentStore (cleanupExpiredDiskCache s4 1002) = Some ex_disk2"
    by (simp add: cleanupExpiredDiskCache_def p isExpired_def t)
       (simp add: ex_disk2_def ex_entry_def ex_entry2_def)
  have n: "\<exists>s. CacheService_new ex_options_on (Some ex_disk2) 1002 = Inr s \<and>
               persistentStore s = Some ex_disk2"
    by (simp add: CacheService_new_def ex_options_on_def ex_disk2_def ex_entry_def ex_entry2_def
        orDefault_def Let_def loadFromDisk_def isExpired_def lru_new_def lru_size_def lru_set_def
        lru_start_def)
  have m: "persistentMaxSize ex_options_on = 1"
    by (simp add: persistentMaxSize_def ex_options_on_def orDefault_def)
  have l: "length (apis ex_disk2) = 2" by (simp add: ex_disk2_def)
  from n obtain s where "CacheService_new ex_options_on (Some ex_disk2) 1002 = Inr s"
    "persistentStore s = Some ex_disk2" by blast
  with m r4 p c l show ?thesis unfolding s4_def by simp
qed

subsection \<open>Storing an entry, and a deferred write that fails\<close>

lemma ex_after_setApi_fresh:
  "setApi id ex_state_fresh 1000 ex_entry =
     ex_state_synced\<lparr>persistentStore := Some emptyCacheData, dirtyKeys := [''api:1:7''],
       immediates := [(''api:1:7'', ex_entry)]\<rparr>"
  using ex_keys ex_key
  by (simp add: ex_state_fresh_def ex_state_synced_def ex_state_loaded_def ex_entry_def
      emptyCacheData_def setApi_def Let_def
      lru_new_def lru_set_def lru_start_def activeStore_def hasUrl_def set_add_def)

lemma lru_peek_set: "lru_peek (lru_set c now k v) k = Some v"
  by (simp add: lru_peek_def lru_set_map_of)

lemma setApi_fields:
  assumes "enabled s"
  shows "memoryCache (setApi H s now e) = lru_set (memoryCache s) now (mainKey e) e"
    and "nameIndex (setApi H s now e) = lru_set (nameIndex s) now (nameKey e) (indexEntry e)"
    and "pathIndex (setApi H s now e) = lru_set (pathIndex s) now (pathKey e) (indexEntry e)"
    and "urlIndex (setApi H s now e) =
           (if hasUrl (url (metadata e))
            then lru_set (urlIndex s) now (getUrlKey H (the (url (metadata e)))) (indexEntry e)
            else urlIndex s)"
    and "dirtyKeys (setApi H s now e) = set_add (mainKey e) (dirtyKeys s)"
    and "immediates (setApi H s now e) =
           (if activeStore s \<noteq> None then immediates s @ [(mainKey e, e)] else immediates s)"
    and "persistentStore (setApi H s now e) = persistentStore s"
    and "persistentEnabled (setApi H s now e) = persistentEnabled s"
    and "syncTimer (setApi H s now e) = syncTimer s"
  using assms by (simp_all add: setApi_def Let_def activeStore_def)

lemma set_add_mem: "k \<in> set (set_add k ks)"
  by (simp add: set_add_def)

lemma syncToDisk_EntryWriteFails: "syncToDisk H x EntryWriteFails k e = x"
  by (simp add: syncToDisk_def split: option.splits)

lemma syncToDisk_written:
  assumes "persistentStore x = Some cache" "oc \<noteq> EntryWriteFails"
  shows "\<exists>cache'. persistentStore (syncToDisk H x oc k e) = Some cache' \<and>
           apis cache' = AList.update k e (apis cache)"
    and "dirtyKeys (syncToDisk H x oc k e) = removeAll k (dirtyKeys x)"
  using assms by (auto simp: syncToDisk_def syncIndexesToDisk_def Let_def)

lemma syncToDisk_store_None:
  "persistentStore x = None \<Longrightarrow> syncToDisk H x oc k e = x"
  by (simp add: syncToDisk_def)

lemma syncToDisk_apis_other:
  assumes "persistentStore x = Some cache" "k' \<noteq> k"
  shows "\<exists>cache'. persistentStore (syncToDisk H x oc k' e') = Some cache' \<and>
           map_of (apis cache') k = map_of (apis cache) k"
  using assms by (auto simp: syncToDisk_def syncIndexesToDisk_def Let_def update_conv')

lemma syncToDisk_dirty_subset: "set (dirtyKeys (syncToDisk H x oc k e)) \<subseteq> set (dirtyKeys x)"
  by (auto simp: syncToDisk_def Let_def split: option.splits if_splits)

lemma map_of_filter_fst: "k' \<noteq> k \<Longrightarrow> map_of (filter (\<lambda>it. fst it \<noteq> k') xs) k = map_of xs k"
  by (induction xs) auto

lemma lru_get_other:
  assumes "k' \<noteq> k"
  shows "map_of (lru_items (snd (lru_get c now k'))) k = map_of (lru_items c) k"
  using assms
  by (auto simp: lru_get_def lru_remove_def map_of_filter_fst split: option.splits prod.splits)


lemma syncDirty_Cons:
  "syncDirty H oc now (key # keys) s = syncDirty H oc now keys (syncDirtyStep H oc now key s)"
  by (cases "lru_get (memoryCache s) now key") (auto simp: syncDirtyStep_def Let_def split: option.splits)

lemma syncToDisk_store_Some:
  "persistentStore x = Some c \<Longrightarrow> \<exists>c'. persistentStore (syncToDisk H x oc k e) = Some c'"
  by (auto simp: syncToDisk_def syncIndexesToDisk_def Let_def)

lemma syncDirtyStep_frame:
  "memoryCache (syncDirtyStep H oc now key s) = snd (lru_get (memoryCache s) now key)"
  "persistentStore s \<noteq> None \<Longrightarrow> persistentStore (syncDirtyStep H oc now key s) \<noteq> None"
proof -
  show "memoryCache (syncDirtyStep H oc now key s) = snd (lru_get (memoryCache s) now key)"
    by (simp add: syncDirtyStep_def split: option.splits)
  assume "persistentStore s \<noteq> None"
  then obtain c where c: "persistentStore s = Some c" by auto
  then have "persistentStore (s\<lparr>memoryCache := mc\<rparr>) = Some c" for mc by simp
  from syncToDisk_store_Some[OF this] c
  show "persistentStore (syncDirtyStep H oc now key s) \<noteq> None"
    by (auto simp: syncDirtyStep_def split: option.splits)
qed

lemma lru_isStale_get [simp]: "lru_isStale (snd (lru_get c now k)) = lru_isStale c"
  by (simp add: lru_isStale_def fun_eq_iff)

lemma resident_step:
  assumes r: "resident now k e x"
  shows "resident now k e (syncDirtyStep H oc now k' x)"
proof -
  from r obtain st where
    ps: "persistentStore x \<noteq> None" and t: "0 \<le> lru_ttl (memoryCache x)"
    and m: "map_of (lru_items (memoryCache x)) k = Some (e, st)"
    and f: "\<not> lru_isStale (memoryCache x) now st"
    by (auto simp: resident_def)
  show ?thesis
  proof (cases "k' = k")
    case False
    then show ?thesis
      using ps t m f lru_get_other[OF False, of "memoryCache x" now]
      by (auto simp: resident_def syncDirtyStep_frame)
  next
    case True
    have g: "lru_get (memoryCache x) now k =
        (Some e, (memoryCache x)\<lparr>lru_items := (k, e, lru_start (memoryCache x) now) #
                                   lru_remove k (lru_items (memoryCache x))\<rparr>)"
      by (rule lru_get_fresh[OF m f])
    have "\<not> lru_isStale (memoryCache x) now (lru_start (memoryCache x) now)"
      using t by (simp add: lru_isStale_def lru_start_def)
    then show ?thesis
      using ps t True
      by (auto simp: resident_def syncDirtyStep_frame g lru_isStale_def)
  qed
qed

lemma flushed_step_self:
  assumes r: "resident now k e x" and ok: "oc k = DiskOk"
  shows "flushed k e (syncDirtyStep H oc now k x)"
proof -
  from r obtain st cache where
    ps: "persistentStore x = Some cache"
    and m: "map_of (lru_items (memoryCache x)) k = Some (e, st)"
    and f: "\<not> lru_isStale (memoryCache x) now st"
    by (auto simp: resident_def)
  have g: "fst (lru_get (memoryCache x) now k) = Some e"
    using lru_get_fresh[OF m f] by simp
  have ps': "persistentStore (x\<lparr>memoryCache := mc\<rparr>) = Some cache" for mc
    using ps by simp
  let ?x1 = "x\<lparr>memoryCache := snd (lru_get (memoryCache x) now k)\<rparr>"
  have "DiskOk \<noteq> EntryWriteFails" by simp
  from syncToDisk_written[OF ps' this, where mc1="snd (lru_get (memoryCache x) now k)" and H=H and k=k and e=e]
  obtain cache' where "persistentStore (syncToDisk H ?x1 DiskOk k e) = Some cache'"
    "apis cache' = AList.update k e (apis cache)"
    "dirtyKeys (syncToDisk H ?x1 DiskOk k e) = removeAll k (dirtyKeys x)"
    by auto
  then show ?thesis
    by (simp add: flushed_def syncDirtyStep_def g ok update_conv')
qed

lemma flushed_step_other:
  assumes fl: "flushed k e x" and ne: "k' \<noteq> k"
  shows "flushed k e (syncDirtyStep H oc now k' x)"
proof -
  from fl obtain cache where
    ps: "persistentStore x = Some cache" and a: "map_of (apis cache) k = Some e"
    and d: "k \<notin> set (dirtyKeys x)"
    by (auto simp: flushed_def)
  have ps': "persistentStore (x\<lparr>memoryCache := mc\<rparr>) = Some cache" for mc
    using ps by simp
  have d': "k \<notin> set (dirtyKeys (syncToDisk H (x\<lparr>memoryCache := mc\<rparr>) o' k' e'))" for mc o' e'
    using syncToDisk_dirty_subset[of H "x\<lparr>memoryCache := mc\<rparr>" o' k' e'] d by auto
  show ?thesis
    using syncToDisk_apis_other[OF ps' ne, of H _ _ ] ps a d d'
    by (auto simp: flushed_def syncDirtyStep_def split: option.splits)
qed

lemma syncDirty_flushes:
  assumes "resident now k e x" "oc k = DiskOk" "k \<in> set ks \<or> flushed k e x"
  shows "flushed k e (syncDirty H oc now ks x)"
  using assms
proof (induction ks arbitrary: x)
  case Nil
  then show ?case by simp
next
  case (Cons k' ks)
  have r: "resident now k e (syncDirtyStep H oc now k' x)" by (rule resident_step[OF Cons.prems(1)])
  show ?case
  proof (cases "k' = k")
    case True
    have "flushed k e (syncDirtyStep H oc now k' x)"
      unfolding True by (rule flushed_step_self[where oc=oc, OF Cons.prems(1,2)])
    then show ?thesis unfolding syncDirty_Cons using Cons.IH[OF r Cons.prems(2)] by blast
  next
    case False
    then have "k \<in> set ks \<or> flushed k e (syncDirtyStep H oc now k' x)"
      using Cons.prems(3) flushed_step_other[of k e x k'] by auto
    then show ?thesis unfolding syncDirty_Cons using Cons.IH[OF r Cons.prems(2)] by blast
  qed
qed


lemma runImmediate_single:
  "immediates x = [(k, e)] \<Longrightarrow> runImmediate H x oc = syncToDisk H (x\<lparr>immediates := []\<rparr>) oc k e"
  by (simp add: runImmediate_def)

text \<open>
  Claim C8, as amended. In every reachable state of a cache that was not
  constructed with \<open>enabled: false\<close>, \<open>setApi\<close> (a total function: it has no
  failing branch) stores the entry in the memory tier, points the name index
  and the path index at it, points the URL index at it when the entry carries a
  non-empty \<open>url\<close> and leaves the URL index alone otherwise, marks the primary key
  dirty, and queues one deferred disk write when the persistent store is in use.
  When the persistent store is in use and no deferred write was pending before
  the call, so that the write queued by this call is the next to run, and that
  write fails on the entries map, nothing changes but the queue, which is empty
  again: the key is still dirty and the entry still in memory. When moreover
  the interval timer is armed and its tick is the very next operation after
  the failed write, at a clock reading \<open>tr\<close> with \<open>tr - now \<le> ttl\<close>, and the disk
  write of that key succeeds at this tick, then after the tick the disk tier
  holds the entry under its key and the key is no longer dirty.
\<close>

theorem setApi_effects_and_failed_write:
  assumes r: "reachable H options t s" and en: "opt_enabled options \<noteq> Some False"
  shows
    "lru_peek (memoryCache (setApi H s now entry)) (mainKey entry) = Some entry \<and>
     lru_peek (nameIndex (setApi H s now entry)) (nameKey entry) = Some (indexEntry entry) \<and>
     lru_peek (pathIndex (setApi H s now entry)) (pathKey entry) = Some (indexEntry entry) \<and>
     (if hasUrl (url (metadata entry))
      then lru_peek (urlIndex (setApi H s now entry)) (getUrlKey H (the (url (metadata entry))))
             = Some (indexEntry entry)
      else urlIndex (setApi H s now entry) = urlIndex s) \<and>
     mainKey entry \<in> set (dirtyKeys (setApi H s now entry)) \<and>
     immediates (setApi H s now entry) =
       (if activeStore s \<noteq> None then immediates s @ [(mainKey entry, entry)] else immediates s) \<and>
     (activeStore s \<noteq> None \<and> immediates s = [] \<longrightarrow>
        runImmediate H (setApi H s now entry) EntryWriteFails
          = (setApi H s now entry)\<lparr>immediates := []\<rparr> \<and>
        (syncTimer s \<and> tr - now \<le> ttl s \<and> oc (mainKey entry) = DiskOk \<longrightarrow>
           flushed (mainKey entry) entry
             (syncTimerTick H (runImmediate H (setApi H s now entry) EntryWriteFails) tr oc)))"
proof -
  let ?s' = "setApi H s now entry"
  let ?k = "mainKey entry"
  have e: "enabled s" using reachable_svc_inv[OF r] en by (simp add: svc_inv_def)
  have tt: "lru_ttl (memoryCache s) = ttl s" using reachable_ttl_inv[OF r] by (simp add: ttl_inv_def)
  have pos: "0 < lru_ttl (memoryCache s)"
    using reachable_svc_inv[OF r] by (simp add: svc_inv_def lru_wf_def)
  note f = setApi_fields[OF e, of H now entry]
  have 1: "lru_peek (memoryCache ?s') ?k = Some entry" by (simp add: f lru_peek_set)
  have 2: "lru_peek (nameIndex ?s') (nameKey entry) = Some (indexEntry entry)"
    by (simp add: f lru_peek_set)
  have 3: "lru_peek (pathIndex ?s') (pathKey entry) = Some (indexEntry entry)"
    by (simp add: f lru_peek_set)
  have 4: "if hasUrl (url (metadata entry))
      then lru_peek (urlIndex ?s') (getUrlKey H (the (url (metadata entry)))) = Some (indexEntry entry)
      else urlIndex ?s' = urlIndex s"
    by (simp add: f lru_peek_set)
  have 5: "?k \<in> set (dirtyKeys ?s')" by (simp add: f set_add_mem)
  have 6: "immediates ?s' =
       (if activeStore s \<noteq> None then immediates s @ [(?k, entry)] else immediates s)"
    by (rule f)
  have 7: "runImmediate H ?s' EntryWriteFails = ?s'\<lparr>immediates := []\<rparr> \<and>
        (syncTimer s \<and> tr - now \<le> ttl s \<and> oc ?k = DiskOk \<longrightarrow>
           flushed ?k entry (syncTimerTick H (runImmediate H ?s' EntryWriteFails) tr oc))"
    if a: "activeStore s \<noteq> None" and i: "immediates s = []"
  proof -
    have im: "immediates ?s' = [(?k, entry)]" using 6 a i by simp
    have ps: "persistentStore s \<noteq> None" using a by (auto simp: activeStore_def split: if_splits)
    define x where "x = ?s'\<lparr>immediates := []\<rparr>"
    have A: "runImmediate H ?s' EntryWriteFails = x"
      unfolding x_def runImmediate_single[OF im] by (rule syncToDisk_EntryWriteFails)
    have xm: "memoryCache x = lru_set (memoryCache s) now ?k entry"
      and xd: "dirtyKeys x = set_add ?k (dirtyKeys s)"
      and xp: "persistentStore x = persistentStore s" and xt: "syncTimer x = syncTimer s"
      by (simp_all add: x_def f)
    have B: "flushed ?k entry (syncTimerTick H x tr oc)"
      if tm: "syncTimer s" and w: "tr - now \<le> ttl s" and ok: "oc ?k = DiskOk"
    proof -
      have ns: "\<not> lru_isStale (memoryCache x) tr (lru_start (memoryCache s) now)"
        using w tt pos by (simp add: xm lru_isStale_def lru_start_def)
      have res: "resident tr ?k entry x"
        unfolding resident_def using ps pos ns
        by (auto simp: xp xm lru_set_map_of)
      have kin: "?k \<in> set (dirtyKeys x)" by (simp add: xd set_add_mem)
      then have ne: "dirtyKeys x \<noteq> []" by auto
      have "syncTimerTick H x tr oc = syncDirty H oc tr (dirtyKeys x) x"
        using tm ne by (simp add: syncTimerTick_def xt)
      then show ?thesis using syncDirty_flushes[where oc=oc and ks="dirtyKeys x" and H=H, OF res ok] kin by simp
    qed
    from A B show ?thesis by (simp add: x_def)
  qed
  from 1 2 3 4 5 6 7 show ?thesis by blast
qed


theorem setApi_effects_and_failed_write_witness:
  "reachable id ex_options_on 1000 ex_state_fresh \<and>
   opt_enabled ex_options_on \<noteq> Some False \<and>
   hasUrl (url (metadata ex_entry)) \<and>
   activeStore ex_state_fresh \<noteq> None \<and> immediates ex_state_fresh = [] \<and>
   syncTimer ex_state_fresh \<and> 1050 - 1000 \<le> ttl ex_state_fresh \<and>
   lru_peek (memoryCache (setApi id ex_state_fresh 1000 ex_entry)) (mainKey ex_entry) = Some ex_entry \<and>
   lru_peek (nameIndex (setApi id ex_state_fresh 1000 ex_entry)) (nameKey ex_entry)
     = Some (indexEntry ex_entry) \<and>
   lru_peek (pathIndex (setApi id ex_state_fresh 1000 ex_entry)) (pathKey ex_entry)
     = Some (indexEntry ex_entry) \<and>
   lru_peek (urlIndex (setApi id ex_state_fresh 1000 ex_entry)) (getUrlKey id ''u'')
     = Some (indexEntry ex_entry) \<and>
   mainKey ex_entry \<in> set (dirtyKeys (setApi id ex_state_fresh 1000 ex_entry)) \<and>
   immediates (setApi id ex_state_fresh 1000 ex_entry) = [(mainKey ex_entry, ex_entry)] \<and>
   runImmediate id (setApi id ex_state_fresh 1000 ex_entry) EntryWriteFails
     = (setApi id ex_state_fresh 1000 ex_entry)\<lparr>immediates := []\<rparr> \<and>
   flushed (mainKey ex_entry) ex_entry
     (syncTimerTick id (runImmediate id (setApi id ex_state_fresh 1000 ex_entry) EntryWriteFails)
        1050 (\<lambda>k. DiskOk))"
proof -
  have r: "reachable id ex_options_on 1000 ex_state_fresh" by (rule reachable.init[OF ex_new_fresh])
  have en: "opt_enabled ex_options_on \<noteq> Some False" by (simp add: ex_options_on_def)
  have u: "hasUrl (url (metadata ex_entry))" "the (url (metadata ex_entry)) = ''u''"
    by (simp_all add: hasUrl_def ex_entry_def)
  have a: "activeStore ex_state_fresh \<noteq> None" "immediates ex_state_fresh = []"
    "syncTimer ex_state_fresh" "1050 - 1000 \<le> ttl ex_state_fresh"
    by (simp_all add: ex_state_fresh_def ex_state_loaded_def activeStore_def)
  note T = setApi_effects_and_failed_write[OF r en, where now=1000 and entry=ex_entry
        and tr=1050 and oc="\<lambda>k. DiskOk"]
  have p: "lru_peek (urlIndex (setApi id ex_state_fresh 1000 ex_entry)) (getUrlKey id ''u'')
     = Some (indexEntry ex_entry)"
    using T u by simp
  have i: "immediates (setApi id ex_state_fresh 1000 ex_entry) = [(mainKey ex_entry, ex_entry)]"
    using T a by simp
  have f: "runImmediate id (setApi id ex_state_fresh 1000 ex_entry) EntryWriteFails
     = (setApi id ex_state_fresh 1000 ex_entry)\<lparr>immediates := []\<rparr>"
    "flushed (mainKey ex_entry) ex_entry
     (syncTimerTick id (runImmediate id (setApi id ex_state_fresh 1000 ex_entry) EntryWriteFails)
        1050 (\<lambda>k. DiskOk))"
    using T a by blast+
  from T p i f r en u(1) a show ?thesis by blast
qed

lemma ex_two_writes:
  "runImmediate id
     (runImmediate id (setApi id (setApi id ex_state_fresh 1000 ex_entry) 1001 ex_entry_v2) DiskOk)
     EntryWriteFails =
   ex_state_synced\<lparr>
     memoryCache := \<lparr>lru_max = 2, lru_ttl = 100, lru_items = [(''api:1:7'', ex_entry_v2, 1001)]\<rparr>,
     urlIndex := \<lparr>lru_max = 4, lru_ttl = 100, lru_items = [(''url:u'', ApiIndexEntry ''1'' 7, 1001)]\<rparr>,
     nameIndex := \<lparr>lru_max = 4, lru_ttl = 100, lru_items = [(''name:1:login'', ApiIndexEntry ''1'' 7, 1001)]\<rparr>,
     pathIndex := \<lparr>lru_max = 4, lru_ttl = 100,
                   lru_items = [(''path:1:POST:/login'', ApiIndexEntry ''1'' 7, 1001)]\<rparr>\<rparr>"
  unfolding ex_after_setApi_fresh
  using ex_keys ex_key
  by (simp add: ex_state_synced_def ex_state_loaded_def ex_disk_def ex_entry_def ex_entry_v2_def
      emptyCacheData_def setApi_def runImmediate_def syncToDisk_def syncIndexesToDisk_def Let_def
      lru_new_def lru_set_def lru_start_def lru_remove_def activeStore_def hasUrl_def set_add_def)

text \<open>
  The claim C8 as it was stated has \<open>setApi\<close> update all three indexes and has
  the key stay dirty after any failure of the triggered disk write. An entry
  without \<open>url\<close> leaves the URL index as it was (here empty). After a write
  whose index part failed the dirty set is empty although the name index never
  reached the disk, so that the next timer tick does nothing. And when the
  same key is stored twice before the deferred writes run, and the first write
  succeeds and the second fails on the entries map, the key is not dirty after
  the failure: the memory tier holds the new entry, the disk tier the old one,
  and the next timer tick does nothing.
\<close>

theorem setApi_effects_and_failed_write_counterexample:
  "CacheService_new ex_options_on (Some emptyCacheData) 1000 = Inr ex_state_fresh \<and>
   url (metadata ex_entry2) = None \<and>
   urlIndex (setApi id ex_state_fresh 1001 ex_entry2) = urlIndex ex_state_fresh \<and>
   lru_items (urlIndex ex_state_fresh) = [] \<and>
   dirtyKeys (runImmediate id (setApi id ex_state_fresh 1000 ex_entry) IndexWriteFails) = [] \<and>
   map_option disk_nameIndex
     (persistentStore (runImmediate id (setApi id ex_state_fresh 1000 ex_entry) IndexWriteFails))
     = Some [] \<and>
   syncTimerTick id (runImmediate id (setApi id ex_state_fresh 1000 ex_entry) IndexWriteFails)
     1050 (\<lambda>k. DiskOk)
     = runImmediate id (setApi id ex_state_fresh 1000 ex_entry) IndexWriteFails \<and>
   dirtyKeys
     (runImmediate id
        (runImmediate id (setApi id (setApi id ex_state_fresh 1000 ex_entry) 1001 ex_entry_v2) DiskOk)
        EntryWriteFails) = [] \<and>
   lru_peek
     (memoryCache
        (runImmediate id
           (runImmediate id (setApi id (setApi id ex_state_fresh 1000 ex_entry) 1001 ex_entry_v2) DiskOk)
           EntryWriteFails)) ''api:1:7'' = Some ex_entry_v2 \<and>
   map_option apis
     (persistentStore
        (runImmediate id
           (runImmediate id (setApi id (setApi id ex_state_fresh 1000 ex_entry) 1001 ex_entry_v2) DiskOk)
           EntryWriteFails)) = Some [(''api:1:7'', ex_entry)] \<and>
   ex_entry_v2 \<noteq> ex_entry \<and>
   syncTimerTick id
     (runImmediate id
        (runImmediate id (setApi id (setApi id ex_state_fresh 1000 ex_entry) 1001 ex_entry_v2) DiskOk)
        EntryWriteFails) 1050 (\<lambda>k. DiskOk) =
     runImmediate id
       (runImmediate id (setApi id (setApi id ex_state_fresh 1000 ex_entry) 1001 ex_entry_v2) DiskOk)
       EntryWriteFails"
proof -
  have w: "dirtyKeys
     (runImmediate id
        (runImmediate id (setApi id (setApi id ex_state_fresh 1000 ex_entry) 1001 ex_entry_v2) DiskOk)
        EntryWriteFails) = [] \<and>
   lru_peek
     (memoryCache
        (runImmediate id
           (runImmediate id (setApi id (setApi id ex_state_fresh 1000 ex_entry) 1001 ex_entry_v2) DiskOk)
           EntryWriteFails)) ''api:1:7'' = Some ex_entry_v2 \<and>
   map_option apis
     (persistentStore
        (runImmediate id
           (runImmediate id (setApi id (setApi id ex_state_fresh 1000 ex_entry) 1001 ex_entry_v2) DiskOk)
           EntryWriteFails)) = Some [(''api:1:7'', ex_entry)] \<and>
   ex_entry_v2 \<noteq> ex_entry \<and>
   syncTimerTick id
     (runImmediate id
        (runImmediate id (setApi id (setApi id ex_state_fresh 1000 ex_entry) 1001 ex_entry_v2) DiskOk)
        EntryWriteFails) 1050 (\<lambda>k. DiskOk) =
     runImmediate id
       (runImmediate id (setApi id (setApi id ex_state_fresh 1000 ex_entry) 1001 ex_entry_v2) DiskOk)
       EntryWriteFails"
    unfolding ex_two_writes
    by (simp add: syncTimerTick_def ex_state_synced_def ex_state_loaded_def ex_disk_def lru_peek_def
        ex_entry_v2_def ex_entry_def)
  have a: "urlIndex (setApi id ex_state_fresh 1001 ex_entry2) = urlIndex ex_state_fresh"
    by (simp add: setApi_def Let_def hasUrl_def ex_entry2_def)
  have b: "runImmediate id (setApi id ex_state_fresh 1000 ex_entry) IndexWriteFails =
      ex_state_synced\<lparr>persistentStore := Some (emptyCacheData\<lparr>apis := [(''api:1:7'', ex_entry)]\<rparr>)\<rparr>"
    using ex_keys ex_key
    by (simp add: ex_state_fresh_def ex_state_synced_def ex_state_loaded_def ex_entry_def
      emptyCacheData_def setApi_def runImmediate_def syncToDisk_def syncIndexesToDisk_def Let_def
      lru_new_def lru_set_def lru_start_def activeStore_def hasUrl_def set_add_def)
  have v: "CacheService_new ex_options_on (Some emptyCacheData) 1000 = Inr ex_state_fresh \<and>
   url (metadata ex_entry2) = None \<and>
   urlIndex (setApi id ex_state_fresh 1001 ex_entry2) = urlIndex ex_state_fresh \<and>
   lru_items (urlIndex ex_state_fresh) = [] \<and>
   dirtyKeys (runImmediate id (setApi id ex_state_fresh 1000 ex_entry) IndexWriteFails) = [] \<and>
   map_option disk_nameIndex
     (persistentStore (runImmediate id (setApi id ex_state_fresh 1000 ex_entry) IndexWriteFails))
     = Some [] \<and>
   syncTimerTick id (runImmediate id (setApi id ex_state_fresh 1000 ex_entry) IndexWriteFails)
     1050 (\<lambda>k. DiskOk)
     = runImmediate id (setApi id ex_state_fresh 1000 ex_entry) IndexWriteFails"
    unfolding b ex_new_fresh using a
    by (simp add: syncTimerTick_def ex_state_synced_def ex_state_loaded_def ex_state_fresh_def
        emptyCacheData_def lru_new_def ex_entry2_def)
  from v w show ?thesis by blast
qed

subsection \<open>Capacity and eviction of the memory tier\<close>

lemma sorted_wrt_last:
  assumes "sorted_wrt P xs" "x \<in> set (butlast xs)"
  shows "P x (last xs)"
  using assms
proof (induction xs)
  case Nil
  then show ?case by simp
next
  case (Cons y ys)
  then show ?case by (cases ys) (auto split: if_splits)
qed

lemma distinct_last_butlast:
  assumes d: "distinct (map fst xs)" and ne: "xs \<noteq> []"
  shows "fst (last xs) \<notin> fst ` set (butlast xs)"
proof -
  have "map fst xs = map fst (butlast xs @ [last xs])" using ne by simp
  then have "distinct (map fst (butlast xs) @ [fst (last xs)])" using d by simp
  then show ?thesis by simp
qed

lemma getApiInternal_memory_front:
  assumes "getApiInternal s now pid aid = (Some (e, Memory), s')"
  shows "lru_items (memoryCache s') =
           (getApiKey pid aid, e, lru_start (memoryCache s) now) #
           lru_remove (getApiKey pid aid) (lru_items (memoryCache s))"
proof -
  obtain entry mc where g: "lru_get (memoryCache s) now (getApiKey pid aid) = (entry, mc)"
    by force
  have "entry = Some e \<and> s' = hit_memory (s\<lparr>memoryCache := mc\<rparr>)"
    using assms unfolding getApiInternal_def Let_def g
    by (auto split: option.splits if_splits)
  moreover from this g have "lru_items mc = (getApiKey pid aid, e, lru_start (memoryCache s) now) #
           lru_remove (getApiKey pid aid) (lru_items (memoryCache s))"
    by (auto simp: lru_get_def split: option.splits prod.splits if_splits)
  ultimately show ?thesis by (simp add: hit_memory_def)
qed

text \<open>
  Claim C3. In every reachable state the memory tier has the configured capacity
  (\<open>options.maxSize || 200\<close>) and holds no more entries than that. When it is
  full and \<open>setApi\<close> brings a key it does not hold, the new entry goes to the
  front and exactly one entry leaves, the one at the back: its key is gone, the
  other entries stay in their order, and no entry of the tier was accessed
  earlier than the one that left. Recency is the time of the last access, not of
  the last write: a \<open>getApi\<close> answered by the memory tier moves the entry to the
  front and stamps it with the time of the read.
\<close>

theorem memory_tier_bounded_lru_eviction:
  assumes r: "reachable H options t s"
  shows
    "lru_max (memoryCache s) = nat (orDefault (opt_maxSize options) 200) \<and>
     lru_size (memoryCache s) \<le> lru_max (memoryCache s) \<and>
     (opt_enabled options \<noteq> Some False \<and>
      lru_size (memoryCache s) = lru_max (memoryCache s) \<and>
      mainKey entry \<notin> fst ` set (lru_items (memoryCache s)) \<longrightarrow>
        lru_items (memoryCache (setApi H s now entry)) =
          (mainKey entry, entry, now) # butlast (lru_items (memoryCache s)) \<and>
        fst (last (lru_items (memoryCache s)))
          \<notin> fst ` set (lru_items (memoryCache (setApi H s now entry))) \<and>
        (\<forall>it \<in> set (lru_items (memoryCache s)).
           snd (snd (last (lru_items (memoryCache s)))) \<le> snd (snd it))) \<and>
     (\<forall>e s'. getApi s now pid aid = (Some (e, Memory), s') \<longrightarrow>
        hd (lru_items (memoryCache s')) = (getApiKey pid aid, e, now))"
proof -
  let ?c = "memoryCache s"
  have inv: "svc_inv options t s" by (rule reachable_svc_inv[OF r])
  then have wf: "lru_wf t ?c" and mx: "lru_max ?c = nat (orDefault (opt_maxSize options) 200)"
    by (simp_all add: svc_inv_def)
  have st: "lru_start ?c now = now" using wf by (simp add: lru_wf_def lru_start_def)
  have 1: "lru_size ?c \<le> lru_max ?c" using wf by (simp add: lru_wf_def lru_size_def)
  have 2: "lru_items (memoryCache (setApi H s now entry)) =
          (mainKey entry, entry, now) # butlast (lru_items ?c) \<and>
        fst (last (lru_items ?c)) \<notin> fst ` set (lru_items (memoryCache (setApi H s now entry))) \<and>
        (\<forall>it \<in> set (lru_items ?c). snd (snd (last (lru_items ?c))) \<le> snd (snd it))"
    if en: "opt_enabled options \<noteq> Some False" and full: "lru_size ?c = lru_max ?c"
      and new: "mainKey entry \<notin> fst ` set (lru_items ?c)"
  proof -
    have e: "enabled s" using inv en by (simp add: svc_inv_def)
    have ne: "lru_items ?c \<noteq> []" using full wf by (auto simp: lru_wf_def lru_size_def)
    have none: "map_of (lru_items ?c) (mainKey entry) = None"
      using new by (simp add: map_of_eq_None_iff)
    have a: "lru_items (memoryCache (setApi H s now entry)) =
          (mainKey entry, entry, now) # butlast (lru_items ?c)"
      using full none st by (simp add: setApi_fields(1)[OF e] lru_set_def lru_size_def)
    have d: "distinct (map fst (lru_items ?c))" using wf by (simp add: lru_wf_def)
    have lastin: "last (lru_items ?c) \<in> set (lru_items ?c)" using ne by simp
    have "fst (last (lru_items ?c)) \<in> fst ` set (lru_items ?c)" by (rule imageI[OF lastin])
    with new have neq: "fst (last (lru_items ?c)) \<noteq> mainKey entry" by metis
    have b: "fst (last (lru_items ?c)) \<notin> fst ` set (lru_items (memoryCache (setApi H s now entry)))"
      unfolding a using distinct_last_butlast[OF d ne] neq by simp
    have srt: "sorted_wrt (\<lambda>a b. snd (snd b) \<le> snd (snd a)) (lru_items ?c)"
      using wf by (simp add: lru_wf_def)
    have c: "snd (snd (last (lru_items ?c))) \<le> snd (snd it)" if "it \<in> set (lru_items ?c)" for it
    proof (cases "it \<in> set (butlast (lru_items ?c))")
      case True
      from sorted_wrt_last[OF srt True] show ?thesis .
    next
      case False
      have "lru_items ?c = butlast (lru_items ?c) @ [last (lru_items ?c)]" using ne by simp
      then have "set (lru_items ?c) = set (butlast (lru_items ?c)) \<union> {last (lru_items ?c)}"
        by (metis list.simps(15) set_append list.set(1) Un_insert_right sup_bot.right_neutral)
      with that False have "it = last (lru_items ?c)" by auto
      then show ?thesis by simp
    qed
    from a b c show ?thesis by blast
  qed
  have 3: "hd (lru_items (memoryCache s')) = (getApiKey pid aid, e, now)"
    if "getApi s now pid aid = (Some (e, Memory), s')" for e s'
  proof -
    have "getApiInternal s now pid aid = (Some (e, Memory), s')"
      using that by (auto simp: getApi_def split: if_splits)
    from getApiInternal_memory_front[OF this] st show ?thesis by simp
  qed
  from mx 1 2 3 show ?thesis by blast
qed


lemma ex_key3: "getApiKey ''1'' 9 = ''api:1:9''"
  by code_simp

lemma setApi_frame [simp]:
  "enabled (setApi H s now e) = enabled s"
  "ttl (setApi H s now e) = ttl s"
  by (simp_all add: setApi_def Let_def)

lemma ex_read_memory:
  "memoryCache ex_state_read =
     \<lparr>lru_max = 2, lru_ttl = 100,
      lru_items = [(''api:1:7'', ex_entry, 1002), (''api:1:8'', ex_entry2, 1001)]\<rparr>"
proof -
  have 1: "memoryCache (setApi id ex_state_mem 1000 ex_entry) =
      \<lparr>lru_max = 2, lru_ttl = 100, lru_items = [(''api:1:7'', ex_entry, 1000)]\<rparr>"
    by (simp add: ex_after_setApi)
  have e0: "enabled ex_state_mem" "ttl ex_state_mem = 100"
    by (simp_all add: ex_state_mem_def ex_state_off_def)
  have e: "enabled (setApi id ex_state_mem 1000 ex_entry)"
    by (simp add: e0)
  have k: "mainKey ex_entry2 = ''api:1:8''" by (simp add: ex_entry2_def ex_keys2)
  have 2: "memoryCache (setApi id (setApi id ex_state_mem 1000 ex_entry) 1001 ex_entry2) =
      \<lparr>lru_max = 2, lru_ttl = 100,
       lru_items = [(''api:1:8'', ex_entry2, 1001), (''api:1:7'', ex_entry, 1000)]\<rparr>"
    by (simp add: setApi_fields(1)[OF e] 1 k lru_set_def lru_start_def)
  have e2: "enabled (setApi id (setApi id ex_state_mem 1000 ex_entry) 1001 ex_entry2)"
    by (simp add: e0)
  have x: "\<not> isExpired (setApi id (setApi id ex_state_mem 1000 ex_entry) 1001 ex_entry2) 1002 ex_entry"
    by (simp add: isExpired_def e0 ex_entry_ids)
  have g: "lru_get (memoryCache (setApi id (setApi id ex_state_mem 1000 ex_entry) 1001 ex_entry2))
             1002 (getApiKey ''1'' 7) =
      (Some ex_entry, \<lparr>lru_max = 2, lru_ttl = 100,
        lru_items = [(''api:1:7'', ex_entry, 1002), (''api:1:8'', ex_entry2, 1001)]\<rparr>)"
    by (simp add: 2 ex_key lru_get_def lru_isStale_def lru_start_def lru_remove_def)
  show ?thesis
    unfolding ex_state_read_def exec.simps
    by (simp add: getApi_def e0 getApiInternal_memory_hit[OF g x] hit_memory_def)
qed

theorem memory_tier_bounded_lru_eviction_witness:
  "reachable id ex_options_mem 1002 ex_state_read \<and>
   opt_enabled ex_options_mem \<noteq> Some False \<and>
   lru_items (memoryCache ex_state_read) =
     [(''api:1:7'', ex_entry, 1002), (''api:1:8'', ex_entry2, 1001)] \<and>
   lru_size (memoryCache ex_state_read) = lru_max (memoryCache ex_state_read) \<and>
   mainKey ex_entry3 \<notin> fst ` set (lru_items (memoryCache ex_state_read)) \<and>
   lru_max (memoryCache ex_state_read) = 2 \<and>
   lru_items (memoryCache (setApi id ex_state_read 1003 ex_entry3)) =
     [(''api:1:9'', ex_entry3, 1003), (''api:1:7'', ex_entry, 1002)]"
proof -
  have r0: "reachable id ex_options_mem 1000 ex_state_mem" by (rule reachable.init[OF ex_new_mem])
  have r: "reachable id ex_options_mem 1002 ex_state_read"
    unfolding ex_state_read_def
    by (intro reachable.step[where t=1001] reachable.step[where t=1000] r0) simp_all
  have en: "opt_enabled ex_options_mem \<noteq> Some False" by (simp add: ex_options_mem_def)
  have k: "mainKey ex_entry3 = ''api:1:9''" by (simp add: ex_entry3_def ex_key3)
  have full: "lru_size (memoryCache ex_state_read) = lru_max (memoryCache ex_state_read)"
    by (simp add: ex_read_memory lru_size_def)
  have new: "mainKey ex_entry3 \<notin> fst ` set (lru_items (memoryCache ex_state_read))"
    by (simp add: ex_read_memory k)
  show ?thesis
    using memory_tier_bounded_lru_eviction[OF r, where entry=ex_entry3 and now=1003] r en full new
    by (simp add: ex_read_memory k ex_options_mem_def orDefault_def)
qed

subsection \<open>Cache keys and projects\<close>

text \<open>
  The primary key \<open>api:<projectId>:<apiId>\<close> ends in the decimal numeral of the
  \<open>apiId\<close>, which contains no colon.
\<close>

lemma digit_no_colon: "n < 10 \<Longrightarrow> ''0123456789'' ! n \<noteq> CHR '':''"
proof -
  assume "n < 10"
  then have "n \<in> {0,1,2,3,4,5,6,7,8,9}" by auto
  then show ?thesis by auto
qed

lemma digits_no_colon: "CHR '':'' \<notin> set (digits n)"
proof (induction n rule: digits.induct)
  case (1 n)
  show ?case
  proof (cases "n < 10")
    case True
    then show ?thesis using digit_no_colon[of n] by (subst digits.simps) simp
  next
    case False
    have "n mod 10 < 10" by simp
    then have "''0123456789'' ! (n mod 10) \<noteq> CHR '':''" by (rule digit_no_colon)
    with 1 False show ?thesis by (subst digits.simps) simp
  qed
qed

lemma numberToString_no_colon: "CHR '':'' \<notin> set (numberToString i)"
  using digits_no_colon by (simp add: numberToString_def)

lemma prefix_sep:
  assumes p: "prefix (xs @ [c]) (ys @ c # zs)" and y: "c \<notin> set ys" and z: "c \<notin> set zs"
  shows "xs = ys"
  using p y
proof (induction xs arbitrary: ys)
  case Nil
  then show ?case by (cases ys) auto
next
  case (Cons x xs)
  show ?case
  proof (cases ys)
    case Nil
    with Cons.prems have "prefix (xs @ [c]) zs" by simp
    then have "c \<in> set zs" by (auto simp: prefix_def)
    with z show ?thesis by simp
  next
    case (Cons y ys')
    with Cons.prems Cons.IH[of ys'] show ?thesis by simp
  qed
qed

text \<open>
  The key of a project whose id has no colon carries the prefix of no other
  project, and a key determines its project.
\<close>

lemma key_prefix_colonfree:
  assumes "startsWith (getApiKey p aid) (''api:'' @ pid @ '':'')" and "CHR '':'' \<notin> set p"
  shows "p = pid"
proof -
  from assms(1) have "prefix (pid @ [CHR '':'']) (p @ CHR '':'' # numberToString aid)"
    by (simp add: startsWith_def getApiKey_def)
  from prefix_sep[OF this assms(2) numberToString_no_colon] show ?thesis by simp
qed

lemma key_has_prefix: "startsWith (getApiKey pid aid) (''api:'' @ pid @ '':'')"
  by (simp add: startsWith_def getApiKey_def)

lemma append_sep_eq:
  assumes "xs @ c # ys = xs' @ c # ys'" and "c \<notin> set ys" and "c \<notin> set ys'"
  shows "xs = xs'"
  using assms
proof (induction xs arbitrary: xs')
  case Nil
  then show ?case by (cases xs') auto
next
  case (Cons x xs)
  then show ?case by (cases xs') auto
qed

lemma getApiKey_project: "getApiKey p a = getApiKey p' a' \<Longrightarrow> p = p'"
  using append_sep_eq[of p "CHR '':''" "numberToString a" p' "numberToString a'"]
    numberToString_no_colon
  by (simp add: getApiKey_def)

text \<open>What \<open>getApiInternal\<close> returns, read off the state it starts from.\<close>

lemma getApiInternal_fst:
  "fst (getApiInternal s now pid aid) =
     (case (case map_of (lru_items (memoryCache s)) (getApiKey pid aid) of
              None \<Rightarrow> None
            | Some (e, st) \<Rightarrow>
                if lru_isStale (memoryCache s) now st \<or> isExpired s now e then None else Some e) of
        Some e \<Rightarrow> Some (e, Memory)
      | None \<Rightarrow>
          (case activeStore s of
             None \<Rightarrow> None
           | Some cache \<Rightarrow>
               (case map_of (apis cache) (getApiKey pid aid) of
                  None \<Rightarrow> None
                | Some e \<Rightarrow> if isExpired s now e then None else Some (e, Disk))))"
  by (auto simp: getApiInternal_def Let_def lru_get_def isExpired_def
      activeStore_def split: option.splits prod.splits)

lemma clearLoop_items:
  "lru_items (fst (clearLoop pre ks (mc, n))) =
     filter (\<lambda>it. \<not> (fst it \<in> set ks \<and> startsWith (fst it) pre)) (lru_items mc)"
proof (induction ks arbitrary: mc n)
  case Nil
  then show ?case by simp
next
  case (Cons k ks)
  show ?case
    by (simp add: Cons.IH lru_delete_def lru_remove_def) (intro conjI impI filter_cong; auto)
qed

lemma map_of_filter_keep:
  "(\<And>x. x \<in> set xs \<Longrightarrow> fst x = k \<Longrightarrow> P x) \<Longrightarrow> map_of (filter P xs) k = map_of xs k"
  by (induction xs) auto

lemma map_of_filter_drop:
  "(\<And>x. x \<in> set xs \<Longrightarrow> fst x = k \<Longrightarrow> \<not> P x) \<Longrightarrow> map_of (filter P xs) k = None"
  by (induction xs) auto

lemma clearProject_fields:
  "memoryCache (snd (clearProject s now pid)) =
     fst (clearLoop (''api:'' @ pid @ '':'') (lru_keys (memoryCache s) now) (memoryCache s, 0))"
  "persistentStore (snd (clearProject s now pid)) =
     map_option
       (\<lambda>cache. cache\<lparr>apis := filter (\<lambda>(key, entry). projectId (metadata entry) \<noteq> pid) (apis cache),
                      disk_urlIndex := [], disk_nameIndex := [], disk_pathIndex := []\<rparr>)
       (persistentStore s)"
  "ttl (snd (clearProject s now pid)) = ttl s"
  "enabled (snd (clearProject s now pid)) = enabled s"
  "persistentEnabled (snd (clearProject s now pid)) = persistentEnabled s"
  by (simp_all add: clearProject_def Let_def split: prod.splits)

lemma lru_isStale_mono: "lru_isStale c now st \<Longrightarrow> now \<le> tr \<Longrightarrow> lru_isStale c tr st"
  by (simp add: lru_isStale_def)

lemma clearProject_memory_own:
  assumes le: "now \<le> tr"
    and m: "map_of (lru_items (memoryCache (snd (clearProject s now pid)))) (getApiKey pid aid) = Some (e, st)"
  shows "lru_isStale (memoryCache (snd (clearProject s now pid))) tr st"
proof -
  let ?k = "getApiKey pid aid"
  let ?P = "\<lambda>it. \<not> (fst it \<in> set (lru_keys (memoryCache s) now) \<and> startsWith (fst it) (''api:'' @ pid @ '':''))"
  from m have f: "map_of (filter ?P (lru_items (memoryCache s))) ?k = Some (e, st)"
    by (simp add: clearProject_fields clearLoop_items)
  then have "(?k, e, st) \<in> set (filter ?P (lru_items (memoryCache s)))" by (rule map_of_SomeD)
  then have i: "(?k, e, st) \<in> set (lru_items (memoryCache s))"
    and n: "?k \<notin> set (lru_keys (memoryCache s) now)"
    using key_has_prefix[of pid aid] by auto
  from i n have "lru_isStale (memoryCache s) now st"
    by (force simp: lru_keys_def lru_entries_def)
  then have "lru_isStale (memoryCache s) tr st" using le by (rule lru_isStale_mono)
  then show ?thesis by (simp add: lru_isStale_def clearProject_fields)
qed

lemma clearProject_disk_own:
  assumes k: "keyedStore s" and p: "persistentStore (snd (clearProject s now pid)) = Some cache"
  shows "map_of (apis cache) (getApiKey pid aid) = None"
proof -
  from p obtain c0 where c0: "persistentStore s = Some c0"
    and c: "apis cache = filter (\<lambda>(key, entry). projectId (metadata entry) \<noteq> pid) (apis c0)"
    by (auto simp: clearProject_fields)
  from k c0 have ky: "\<And>x. x \<in> set (apis c0) \<Longrightarrow> fst x = mainKey (snd x)"
    by (auto simp: keyedStore_def list_all_iff)
  show ?thesis unfolding c
  proof (rule map_of_filter_drop)
    fix x assume x: "x \<in> set (apis c0)" and f: "fst x = getApiKey pid aid"
    from ky[OF x] f have "projectId (metadata (snd x)) = pid" by (auto dest: getApiKey_project)
    then show "\<not> (case x of (key, entry) \<Rightarrow> projectId (metadata entry) \<noteq> pid)"
      by (cases x) simp
  qed
qed

lemma clearProject_memory_other:
  assumes "p \<noteq> pid" and "CHR '':'' \<notin> set p"
  shows "map_of (lru_items (memoryCache (snd (clearProject s now pid)))) (getApiKey p aid) =
         map_of (lru_items (memoryCache s)) (getApiKey p aid)"
  unfolding clearProject_fields clearLoop_items
  using assms key_prefix_colonfree[of p aid pid] by (intro map_of_filter_keep) auto

lemma clearProject_disk_other:
  assumes k: "keyedStore s" and ne: "p \<noteq> pid"
  shows "map_option (\<lambda>cache. map_of (apis cache) (getApiKey p aid)) (activeStore (snd (clearProject s now pid))) =
         map_option (\<lambda>cache. map_of (apis cache) (getApiKey p aid)) (activeStore s)"
proof (cases "activeStore s")
  case None
  then show ?thesis by (auto simp: activeStore_def clearProject_fields)
next
  case (Some c0)
  then have c0: "persistentStore s = Some c0" and pe: "persistentEnabled s"
    by (auto simp: activeStore_def split: if_splits)
  from k c0 have ky: "\<And>x. x \<in> set (apis c0) \<Longrightarrow> fst x = mainKey (snd x)"
    by (auto simp: keyedStore_def list_all_iff)
  have "map_of (filter (\<lambda>(key, entry). projectId (metadata entry) \<noteq> pid) (apis c0)) (getApiKey p aid)
        = map_of (apis c0) (getApiKey p aid)"
  proof (rule map_of_filter_keep)
    fix x assume x: "x \<in> set (apis c0)" and f: "fst x = getApiKey p aid"
    from ky[OF x] f have "projectId (metadata (snd x)) = p" by (auto dest: getApiKey_project)
    with ne show "case x of (key, entry) \<Rightarrow> projectId (metadata entry) \<noteq> pid"
      by (cases x) simp
  qed
  then show ?thesis using c0 pe by (simp add: activeStore_def clearProject_fields)
qed

subsection \<open>Entries are stored under their own keys\<close>

text \<open>
  The service stores an entry under no key but the one derived from the entry's
  own \<open>projectId\<close> and \<open>apiId\<close>: when the disk document it starts from is keyed
  in this way, so is the state after construction (\<open>keyed_new\<close>), and every
  operation keeps it so (\<open>keyed_exec\<close>). In particular \<open>keyedStore\<close> holds
  throughout such a run.
\<close>

lemma keyedMem_set: "keyedMem c \<Longrightarrow> k = mainKey e \<Longrightarrow> keyedMem (lru_set c now k e)"
  by (auto simp: keyedMem_def lru_set_def lru_remove_def Let_def list_all_iff
      split: option.splits dest: in_set_butlastD)

lemma keyedMem_get: "keyedMem c \<Longrightarrow> keyedMem (snd (lru_get c now k))"
  by (auto simp: keyedMem_def lru_get_def lru_remove_def list_all_iff
      split: option.splits dest: map_of_SomeD)

lemma keyedMem_get_Some: "keyedMem c \<Longrightarrow> fst (lru_get c now k) = Some e \<Longrightarrow> k = mainKey e"
  by (auto simp: keyedMem_def lru_get_def list_all_iff
      split: option.splits if_splits dest!: map_of_SomeD)

lemma keyedMem_delete: "keyedMem c \<Longrightarrow> keyedMem (lru_delete c k)"
  by (auto simp: keyedMem_def lru_delete_def lru_remove_def list_all_iff)

lemma keyedMem_clear: "keyedMem (lru_clear c)"
  by (simp add: keyedMem_def lru_clear_def)

lemma keyedMem_clearLoop: "keyedMem mc \<Longrightarrow> keyedMem (fst (clearLoop pre ks (mc, n)))"
  by (simp add: keyedMem_def clearLoop_items list_all_iff)

lemma set_update_subset: "set (AList.update k v xs) \<subseteq> insert (k, v) (set xs)"
  by (induction xs) auto

lemma set_delete_subset: "set (AList.delete k xs) \<subseteq> set xs"
  by (auto simp: AList.delete_eq)

lemma keyedStore_syncIndexesToDisk:
  "keyedStore s \<Longrightarrow> keyedStore (syncIndexesToDisk H s oc e)"
  by (auto simp: keyedStore_def syncIndexesToDisk_def Let_def split: option.splits)

lemma syncIndexesToDisk_immediates [simp]:
  "immediates (syncIndexesToDisk H s oc e) = immediates s"
  by (simp add: syncIndexesToDisk_def Let_def split: option.splits)

lemma keyed_syncToDisk:
  assumes "keyed s" "k = mainKey e"
  shows "keyed (syncToDisk H s oc k e)"
proof (cases "persistentStore s")
  case None
  then show ?thesis using assms by (simp add: syncToDisk_def)
next
  case (Some cache)
  have "keyedStore (s\<lparr>persistentStore := Some (cache\<lparr>apis := AList.update k e (apis cache)\<rparr>)\<rparr>)"
    using assms Some set_update_subset[of k e "apis cache"]
    by (auto simp: keyed_def keyedStore_def list_all_iff)
  then have "keyedStore (syncIndexesToDisk H
      (s\<lparr>persistentStore := Some (cache\<lparr>apis := AList.update k e (apis cache)\<rparr>)\<rparr>) oc e)"
    by (rule keyedStore_syncIndexesToDisk)
  then show ?thesis
    using assms Some by (simp add: syncToDisk_def Let_def keyed_def keyedStore_def)
qed

lemma keyed_removeFromDisk: "keyed s \<Longrightarrow> keyed (removeFromDisk s k)"
  using set_delete_subset
  by (fastforce simp: keyed_def keyedStore_def removeFromDisk_def list_all_iff split: option.splits)

lemma keyed_stats [simp]:
  "keyed (hit_memory s) = keyed s" "keyed (miss_memory s) = keyed s"
  "keyed (hit_persistent s) = keyed s"
  by (simp_all add: keyed_def keyedStore_def hit_memory_def miss_memory_def hit_persistent_def)

lemma keyed_memoryCache:
  "keyed s \<Longrightarrow> keyedMem mc \<Longrightarrow> keyed (s\<lparr>memoryCache := mc\<rparr>)"
  by (simp add: keyed_def keyedStore_def)

lemma hit_persistent_memoryCache: "memoryCache (hit_persistent s) = memoryCache s"
  by (simp add: hit_persistent_def)

lemma keyed_getApiInternal:
  assumes k: "keyed s"
  shows "keyed (snd (getApiInternal s now pid aid))"
proof -
  obtain entry mc where g: "lru_get (memoryCache s) now (getApiKey pid aid) = (entry, mc)"
    by force
  have mc: "keyedMem mc" using keyedMem_get[of "memoryCache s" now "getApiKey pid aid"] k g
    by (simp add: keyed_def)
  then have s1: "keyed (s\<lparr>memoryCache := mc\<rparr>)" using k by (rule keyed_memoryCache[rotated])
  have d: "getApiKey pid aid = mainKey e"
    if "activeStore (s\<lparr>memoryCache := mc\<rparr>) = Some cache" "map_of (apis cache) (getApiKey pid aid) = Some e"
    for cache e
    using that k by (auto simp: keyed_def keyedStore_def activeStore_def list_all_iff
        split: if_splits dest!: map_of_SomeD)
  show ?thesis
    unfolding getApiInternal_def Let_def g
    using s1 mc d keyed_removeFromDisk[OF s1]
    by (auto split: option.splits intro!: keyed_memoryCache keyedMem_set
        simp: hit_persistent_memoryCache)
qed

lemma keyed_same_core: "same_core s s2 \<Longrightarrow> keyed s \<Longrightarrow> keyed s2"
  by (simp add: same_core_def keyed_def keyedStore_def)

lemma keyed_setApi: "keyed s \<Longrightarrow> keyed (setApi H s now e)"
  by (auto simp: setApi_def Let_def keyed_def keyedStore_def keyedMem_set)

lemma keyed_clear: "keyed s \<Longrightarrow> keyed (clear s)"
  by (auto simp: clear_def keyed_def keyedStore_def keyedMem_clear emptyCacheData_def
      split: option.splits)

lemma clearProject_immediates [simp]: "immediates (snd (clearProject s now pid)) = immediates s"
  by (simp add: clearProject_def Let_def split: prod.splits)

lemma keyed_clearProject: "keyed s \<Longrightarrow> keyed (snd (clearProject s now pid))"
  by (auto simp: keyed_def keyedStore_def clearProject_fields keyedMem_clearLoop
      list_all_iff split: option.splits)

lemma keyed_clearByUrl: "keyed s \<Longrightarrow> keyed (snd (clearByUrl H s now u))"
  using set_delete_subset
  by (fastforce simp: clearByUrl_def Let_def keyed_def keyedStore_def keyedMem_delete list_all_iff
      split: option.splits prod.splits)

lemma keyed_runImmediate: "keyed s \<Longrightarrow> keyed (runImmediate H s oc)"
proof (cases "immediates s")
  case Nil
  assume "keyed s"
  then show ?thesis using Nil by (simp add: runImmediate_def)
next
  case (Cons a rest)
  assume k: "keyed s"
  obtain key entry where a: "a = (key, entry)" by force
  have "keyed (s\<lparr>immediates := rest\<rparr>)" "key = mainKey entry"
    using k Cons a by (simp_all add: keyed_def keyedStore_def)
  then have "keyed (syncToDisk H (s\<lparr>immediates := rest\<rparr>) oc key entry)"
    by (rule keyed_syncToDisk)
  then show ?thesis using Cons a by (simp add: runImmediate_def)
qed

lemma keyed_syncDirty: "keyed s \<Longrightarrow> keyed (syncDirty H oc now ks s)"
proof (induction ks arbitrary: s)
  case Nil
  then show ?case by simp
next
  case (Cons k ks)
  obtain entry mc where g: "lru_get (memoryCache s) now k = (entry, mc)" by force
  have mc: "keyedMem mc" using keyedMem_get[of "memoryCache s" now k] Cons.prems g
    by (simp add: keyed_def)
  then have s1: "keyed (s\<lparr>memoryCache := mc\<rparr>)" using Cons.prems by (rule keyed_memoryCache[rotated])
  have "keyed (case entry of None \<Rightarrow> s\<lparr>memoryCache := mc\<rparr>
      | Some e \<Rightarrow> syncToDisk H (s\<lparr>memoryCache := mc\<rparr>) (oc k) k e)"
  proof (cases entry)
    case None
    then show ?thesis using s1 by simp
  next
    case (Some e)
    have "k = mainKey e"
      using keyedMem_get_Some[of "memoryCache s" now k e] Cons.prems g Some by (simp add: keyed_def)
    with s1 Some show ?thesis by (simp add: keyed_syncToDisk)
  qed
  from Cons.IH[OF this] show ?case by (simp add: g Let_def)
qed

lemma keyed_syncTimerTick: "keyed s \<Longrightarrow> keyed (syncTimerTick H s now oc)"
  by (simp add: syncTimerTick_def keyed_syncDirty)

lemma keyed_shutdown: "keyed s \<Longrightarrow> keyed (shutdown H s now oc)"
proof -
  assume "keyed s"
  then have "keyed (s\<lparr>syncTimer := False\<rparr>)" by (simp add: keyed_def keyedStore_def)
  then show ?thesis by (simp add: shutdown_def Let_def keyed_syncDirty)
qed

lemma keyed_exec: "keyed s \<Longrightarrow> keyed (exec H s now op)"
proof (cases op)
  case (FindByUrl u)
  assume k: "keyed s"
  have "keyed (snd (findByUrl H s now u))"
    by (rule findByUrl_preserves) (auto intro: keyed_same_core[OF _ k] keyed_getApiInternal)
  then show ?thesis using FindByUrl by simp
next
  case (FindByName pid nm)
  assume k: "keyed s"
  have "keyed (snd (findByName s now pid nm))"
    by (rule findByName_preserves) (auto intro: keyed_same_core[OF _ k] keyed_getApiInternal)
  then show ?thesis using FindByName by simp
next
  case (FindByPath pid m p)
  assume k: "keyed s"
  have "keyed (snd (findByPath s now pid m p))"
    by (rule findByPath_preserves) (auto intro: keyed_same_core[OF _ k] keyed_getApiInternal)
  then show ?thesis using FindByPath by simp
qed (simp_all add: keyed_setApi getApi_def keyed_getApiInternal keyed_clear keyed_clearProject
      keyed_clearByUrl keyed_runImmediate keyed_syncTimerTick keyed_shutdown)

lemma keyedMem_loadLoop:
  "keyedMem mc \<Longrightarrow> list_all (\<lambda>(k, e). k = mainKey e) xs \<Longrightarrow>
   keyedMem (fst (loadLoop s now xs (mc, n)))"
  by (induction xs arbitrary: mc n) (auto simp: keyedMem_set)

lemma keyed_cleanupExpiredDiskCache: "keyed s \<Longrightarrow> keyed (cleanupExpiredDiskCache s now)"
  by (auto simp: keyed_def keyedStore_def cleanupExpiredDiskCache_def list_all_iff
      split: option.splits)

lemma keyed_loadFromDisk:
  assumes "keyed s"
  shows "keyed (loadFromDisk s now)"
proof (cases "persistentStore s")
  case None
  then show ?thesis using assms by (simp add: loadFromDisk_def)
next
  case (Some cache)
  obtain mc n where l: "loadLoop s now (apis cache) (memoryCache s, 0) = (mc, n)" by force
  have mc: "mc = fst (loadLoop s now (apis cache) (memoryCache s, 0))"
    by (simp only: l fst_conv)
  have "keyedMem mc"
    unfolding mc using assms Some by (intro keyedMem_loadLoop) (simp_all add: keyed_def keyedStore_def)
  with assms have "keyed (s\<lparr>memoryCache := mc\<rparr>)" by (rule keyed_memoryCache)
  then show ?thesis
    using Some l by (simp add: loadFromDisk_def Let_def keyed_cleanupExpiredDiskCache)
qed

lemma keyed_new:
  assumes n: "CacheService_new options storage t0 = Inr s"
    and d: "case storage of None \<Rightarrow> True | Some cache \<Rightarrow> list_all (\<lambda>(k, e). k = mainKey e) (apis cache)"
  shows "keyed s"
proof -
  have L: "keyed ((loadFromDisk S t0)\<lparr>syncTimer := True\<rparr>)" if "keyed S" for S
    using keyed_loadFromDisk[OF that, of t0] by (simp add: keyed_def keyedStore_def)
  show ?thesis
    using n d
    apply (auto simp: CacheService_new_def Let_def split: if_splits option.splits intro!: L)
    apply (simp_all add: keyed_def keyedStore_def keyedMem_def lru_new_def)
    done
qed

subsection \<open>Clearing one project\<close>

text \<open>
  Once no tier offers an entry of a project, this stays so under every operation
  but a \<open>setApi\<close> of an entry of that project (\<open>cleared_exec\<close>), and
  \<open>clearProject\<close> brings this about when no deferred write of such an entry is
  pending (\<open>cleared_clearProject_self\<close>).
\<close>

lemma clearedMem_mono: "clearedMem pid t c \<Longrightarrow> t \<le> now \<Longrightarrow> clearedMem pid now c"
  by (auto simp: clearedMem_def list_all_iff intro: lru_isStale_mono)

lemma clearedMem_set:
  "clearedMem pid now c \<Longrightarrow> projectId (metadata e) \<noteq> pid \<Longrightarrow> clearedMem pid now (lru_set c now k e)"
  by (auto simp: clearedMem_def lru_set_def lru_remove_def Let_def list_all_iff lru_isStale_def
      split: option.splits dest: in_set_butlastD)

lemma clearedMem_get: "clearedMem pid now c \<Longrightarrow> clearedMem pid now (snd (lru_get c now k))"
  by (auto simp: clearedMem_def lru_get_def lru_remove_def list_all_iff lru_isStale_def
      split: option.splits dest!: map_of_SomeD)

lemma clearedMem_get_Some:
  "clearedMem pid now c \<Longrightarrow> fst (lru_get c now k) = Some e \<Longrightarrow> projectId (metadata e) \<noteq> pid"
  by (auto simp: clearedMem_def lru_get_def list_all_iff
      split: option.splits if_splits dest!: map_of_SomeD)

lemma clearedMem_delete: "clearedMem pid t c \<Longrightarrow> clearedMem pid t (lru_delete c k)"
  by (auto simp: clearedMem_def lru_delete_def lru_remove_def list_all_iff lru_isStale_def)

lemma clearedMem_clear: "clearedMem pid t (lru_clear c)"
  by (simp add: clearedMem_def lru_clear_def)

lemma clearedMem_clearLoop:
  "clearedMem pid t mc \<Longrightarrow> clearedMem pid t (fst (clearLoop pre ks (mc, n)))"
  by (simp add: clearedMem_def clearLoop_items list_all_iff lru_isStale_def)

lemma cleared_mono: "cleared pid t s \<Longrightarrow> t \<le> now \<Longrightarrow> cleared pid now s"
  by (auto simp: cleared_def intro: clearedMem_mono)

lemma cleared_syncIndexesToDisk:
  "cleared pid t s \<Longrightarrow> cleared pid t (syncIndexesToDisk H s oc e)"
  by (auto simp: cleared_def syncIndexesToDisk_def Let_def split: option.splits)

lemma cleared_syncToDisk:
  assumes "cleared pid t s" "projectId (metadata e) \<noteq> pid"
  shows "cleared pid t (syncToDisk H s oc k e)"
proof (cases "persistentStore s")
  case None
  then show ?thesis using assms by (simp add: syncToDisk_def)
next
  case (Some cache)
  have "cleared pid t (s\<lparr>persistentStore := Some (cache\<lparr>apis := AList.update k e (apis cache)\<rparr>)\<rparr>)"
    using assms Some set_update_subset[of k e "apis cache"]
    by (auto simp: cleared_def list_all_iff)
  then have "cleared pid t (syncIndexesToDisk H
      (s\<lparr>persistentStore := Some (cache\<lparr>apis := AList.update k e (apis cache)\<rparr>)\<rparr>) oc e)"
    by (rule cleared_syncIndexesToDisk)
  then show ?thesis
    using assms Some by (simp add: syncToDisk_def Let_def cleared_def)
qed

lemma cleared_removeFromDisk: "cleared pid t s \<Longrightarrow> cleared pid t (removeFromDisk s k)"
  using set_delete_subset
  by (fastforce simp: cleared_def removeFromDisk_def list_all_iff split: option.splits)

lemma cleared_stats [simp]:
  "cleared pid t (hit_memory s) = cleared pid t s" "cleared pid t (miss_memory s) = cleared pid t s"
  "cleared pid t (hit_persistent s) = cleared pid t s"
  by (simp_all add: cleared_def hit_memory_def miss_memory_def hit_persistent_def)

lemma cleared_memoryCache:
  "cleared pid t s \<Longrightarrow> clearedMem pid t mc \<Longrightarrow> cleared pid t (s\<lparr>memoryCache := mc\<rparr>)"
  by (simp add: cleared_def)

lemma cleared_getApiInternal:
  assumes k: "cleared pid now s"
  shows "cleared pid now (snd (getApiInternal s now p a))"
proof -
  obtain entry mc where g: "lru_get (memoryCache s) now (getApiKey p a) = (entry, mc)"
    by force
  have mc: "clearedMem pid now mc" using clearedMem_get[of pid now "memoryCache s" "getApiKey p a"] k g
    by (simp add: cleared_def)
  then have s1: "cleared pid now (s\<lparr>memoryCache := mc\<rparr>)" using k by (rule cleared_memoryCache[rotated])
  have d: "projectId (metadata e) \<noteq> pid"
    if "activeStore (s\<lparr>memoryCache := mc\<rparr>) = Some cache" "map_of (apis cache) (getApiKey p a) = Some e"
    for cache e
    using that k by (auto simp: cleared_def activeStore_def list_all_iff
        split: if_splits dest!: map_of_SomeD)
  show ?thesis
    unfolding getApiInternal_def Let_def g
    using s1 mc d cleared_removeFromDisk[OF s1]
    by (auto split: option.splits intro!: cleared_memoryCache clearedMem_set
        simp: hit_persistent_memoryCache)
qed

lemma cleared_same_core: "same_core s s2 \<Longrightarrow> cleared pid t s \<Longrightarrow> cleared pid t s2"
  by (simp add: same_core_def cleared_def)

lemma cleared_setApi:
  "cleared pid now s \<Longrightarrow> projectId (metadata e) \<noteq> pid \<Longrightarrow> cleared pid now (setApi H s now e)"
  by (auto simp: setApi_def Let_def cleared_def clearedMem_set)

lemma cleared_clear: "cleared pid t s \<Longrightarrow> cleared pid t (clear s)"
  by (auto simp: clear_def cleared_def clearedMem_clear emptyCacheData_def split: option.splits)

lemma cleared_clearProject: "cleared pid t s \<Longrightarrow> cleared pid t (snd (clearProject s now q))"
  by (auto simp: cleared_def clearProject_fields clearedMem_clearLoop list_all_iff
      split: option.splits)

lemma cleared_clearByUrl: "cleared pid t s \<Longrightarrow> cleared pid t (snd (clearByUrl H s now u))"
  using set_delete_subset
  by (fastforce simp: clearByUrl_def Let_def cleared_def clearedMem_delete list_all_iff
      split: option.splits prod.splits)

lemma cleared_runImmediate: "cleared pid t s \<Longrightarrow> cleared pid t (runImmediate H s oc)"
proof (cases "immediates s")
  case Nil
  assume "cleared pid t s"
  then show ?thesis using Nil by (simp add: runImmediate_def)
next
  case (Cons a rest)
  assume k: "cleared pid t s"
  obtain key entry where a: "a = (key, entry)" by force
  have "cleared pid t (s\<lparr>immediates := rest\<rparr>)" "projectId (metadata entry) \<noteq> pid"
    using k Cons a by (simp_all add: cleared_def)
  then have "cleared pid t (syncToDisk H (s\<lparr>immediates := rest\<rparr>) oc key entry)"
    by (rule cleared_syncToDisk)
  then show ?thesis using Cons a by (simp add: runImmediate_def)
qed

lemma cleared_syncDirty: "cleared pid now s \<Longrightarrow> cleared pid now (syncDirty H oc now ks s)"
proof (induction ks arbitrary: s)
  case Nil
  then show ?case by simp
next
  case (Cons k ks)
  obtain entry mc where g: "lru_get (memoryCache s) now k = (entry, mc)" by force
  have mc: "clearedMem pid now mc" using clearedMem_get[of pid now "memoryCache s" k] Cons.prems g
    by (simp add: cleared_def)
  then have s1: "cleared pid now (s\<lparr>memoryCache := mc\<rparr>)"
    using Cons.prems by (rule cleared_memoryCache[rotated])
  have "cleared pid now (case entry of None \<Rightarrow> s\<lparr>memoryCache := mc\<rparr>
      | Some e \<Rightarrow> syncToDisk H (s\<lparr>memoryCache := mc\<rparr>) (oc k) k e)"
  proof (cases entry)
    case None
    then show ?thesis using s1 by simp
  next
    case (Some e)
    have "projectId (metadata e) \<noteq> pid"
      using clearedMem_get_Some[of pid now "memoryCache s" k e] Cons.prems g Some
      by (simp add: cleared_def)
    with s1 Some show ?thesis by (simp add: cleared_syncToDisk)
  qed
  from Cons.IH[OF this] show ?case by (simp add: g Let_def)
qed

lemma cleared_syncTimerTick: "cleared pid now s \<Longrightarrow> cleared pid now (syncTimerTick H s now oc)"
  by (simp add: syncTimerTick_def cleared_syncDirty)

lemma cleared_shutdown: "cleared pid now s \<Longrightarrow> cleared pid now (shutdown H s now oc)"
proof -
  assume "cleared pid now s"
  then have "cleared pid now (s\<lparr>syncTimer := False\<rparr>)" by (simp add: cleared_def)
  then show ?thesis by (simp add: shutdown_def Let_def cleared_syncDirty)
qed

lemma cleared_exec:
  assumes c: "cleared pid t s" and le: "t \<le> now" and n: "\<not> storesProject pid op"
  shows "cleared pid now (exec H s now op)"
proof -
  have k: "cleared pid now s" using c le by (rule cleared_mono)
  show ?thesis
  proof (cases op)
    case (FindByUrl u)
    have "cleared pid now (snd (findByUrl H s now u))"
      by (rule findByUrl_preserves) (auto intro: cleared_same_core[OF _ k] cleared_getApiInternal)
    then show ?thesis using FindByUrl by simp
  next
    case (FindByName q nm)
    have "cleared pid now (snd (findByName s now q nm))"
      by (rule findByName_preserves) (auto intro: cleared_same_core[OF _ k] cleared_getApiInternal)
    then show ?thesis using FindByName by simp
  next
    case (FindByPath q m p)
    have "cleared pid now (snd (findByPath s now q m p))"
      by (rule findByPath_preserves) (auto intro: cleared_same_core[OF _ k] cleared_getApiInternal)
    then show ?thesis using FindByPath by simp
  qed (insert k n, simp_all add: cleared_setApi getApi_def cleared_getApiInternal cleared_clear
        cleared_clearProject cleared_clearByUrl cleared_runImmediate cleared_syncTimerTick
        cleared_shutdown storesProject_def)
qed

lemma cleared_run:
  assumes "cleared pid t s" "keyed s" "ascending t ops tr" "list_all (\<lambda>(now, op). \<not> storesProject pid op) ops"
  shows "cleared pid tr (run H s ops) \<and> keyed (run H s ops)"
  using assms
proof (induction ops arbitrary: t s)
  case Nil
  then show ?case by (auto intro: cleared_mono)
next
  case (Cons a ops)
  obtain now op where a: "a = (now, op)" by force
  have c: "cleared pid now (exec H s now op)"
    using Cons.prems a by (intro cleared_exec[of pid t]) auto
  have k: "keyed (exec H s now op)" using Cons.prems by (simp add: keyed_exec)
  from Cons.IH[OF c k] Cons.prems a show ?case by simp
qed

lemma cleared_clearProject_self:
  assumes k: "keyed s" and i: "list_all (\<lambda>(k, e). projectId (metadata e) \<noteq> pid) (immediates s)"
  shows "cleared pid now (snd (clearProject s now pid))"
proof -
  let ?mc = "memoryCache s"
  let ?P = "\<lambda>it. \<not> (fst it \<in> set (lru_keys ?mc now) \<and> startsWith (fst it) (''api:'' @ pid @ '':''))"
  have m: "lru_isStale ?mc now st"
    if x: "(key, e, st) \<in> set (lru_items ?mc)" and p: "?P (key, e, st)"
      and q: "projectId (metadata e) = pid" for key e st
  proof -
    from k x have "key = mainKey e" by (auto simp: keyed_def keyedMem_def list_all_iff)
    with q have "startsWith key (''api:'' @ pid @ '':'')" using key_has_prefix[of pid] by simp
    with p have "key \<notin> set (lru_keys ?mc now)" by simp
    with x show ?thesis by (force simp: lru_keys_def lru_entries_def)
  qed
  have "clearedMem pid now (memoryCache (snd (clearProject s now pid)))"
    unfolding clearedMem_def clearProject_fields clearLoop_items list_all_iff
    using m by (auto simp: lru_isStale_def)
  then show ?thesis
    using i by (auto simp: cleared_def clearProject_fields list_all_iff split: option.splits)
qed

lemma cleared_getApi:
  assumes c: "cleared pid tr s" and k: "keyed s"
  shows "fst (getApi s tr pid aid) = None"
proof -
  have m: "lru_isStale (memoryCache s) tr st"
    if "map_of (lru_items (memoryCache s)) (getApiKey pid aid) = Some (e, st)" for e st
  proof -
    from that have x: "(getApiKey pid aid, e, st) \<in> set (lru_items (memoryCache s))"
      by (rule map_of_SomeD)
    with k have "getApiKey pid aid = mainKey e" by (auto simp: keyed_def keyedMem_def list_all_iff)
    then have "projectId (metadata e) = pid" by (auto dest: getApiKey_project)
    with c x show ?thesis by (auto simp: cleared_def clearedMem_def list_all_iff)
  qed
  have d: "map_of (apis cache) (getApiKey pid aid) = None" if "persistentStore s = Some cache" for cache
  proof (cases "map_of (apis cache) (getApiKey pid aid)")
    case None
    then show ?thesis .
  next
    case (Some e)
    then have x: "(getApiKey pid aid, e) \<in> set (apis cache)" by (rule map_of_SomeD)
    with k that have "getApiKey pid aid = mainKey e"
      by (auto simp: keyed_def keyedStore_def list_all_iff)
    then have "projectId (metadata e) = pid" by (auto dest: getApiKey_project)
    with c x that show ?thesis by (auto simp: cleared_def list_all_iff)
  qed
  have "fst (getApiInternal s tr pid aid) = None"
    unfolding getApiInternal_fst using m d
    by (auto simp: activeStore_def split: option.splits if_splits)
  then show ?thesis by (simp add: getApi_def)
qed

text \<open>
  Claim C7, as amended. Let the disk document store every entry under the key
  of its own \<open>projectId\<close> and \<open>apiId\<close>, and let \<open>clearProject(pid)\<close> run at time
  \<open>now\<close>. Then
  \<^item> for every \<open>apiId\<close>, the \<open>getApi(pid, apiId)\<close> that comes next, at a clock
    reading \<open>tr\<close> not before \<open>now\<close>, returns nothing;
  \<^item> for every project \<open>p\<close> other than \<open>pid\<close> whose id contains no colon, and
    every \<open>apiId\<close>, the \<open>getApi(p, apiId)\<close> that comes next, at any clock reading,
    returns what it would have returned had \<open>clearProject\<close> not been called: the
    same entry from the same tier, or nothing;
  \<^item> when moreover the memory tier and the pending deferred writes hold their
    entries under the entries' own keys too, and no deferred write of an entry of
    project \<open>pid\<close> is pending at the time of \<open>clearProject\<close>: after every
    sequence of operations at non-decreasing clock readings from \<open>now\<close> on, none
    of which is a \<open>setApi\<close> of an entry of project \<open>pid\<close>, \<open>getApi(pid, apiId)\<close>
    at a clock reading \<open>tr\<close> not before the last of them returns nothing, for
    every \<open>apiId\<close>.
\<close>

theorem clearProject_clears_one_project:
  assumes k: "keyedStore s"
  shows "(now \<le> tr \<longrightarrow> fst (getApi (snd (clearProject s now pid)) tr pid aid) = None) \<and>
         (p \<noteq> pid \<and> CHR '':'' \<notin> set p \<longrightarrow>
            fst (getApi (snd (clearProject s now pid)) tr p aid) = fst (getApi s tr p aid)) \<and>
         (keyed s \<and> list_all (\<lambda>(k, e). projectId (metadata e) \<noteq> pid) (immediates s) \<and>
          ascending now ops tr \<and> list_all (\<lambda>(t, op). \<not> storesProject pid op) ops \<longrightarrow>
            fst (getApi (run H (snd (clearProject s now pid)) ops) tr pid aid) = None)"
proof (intro conjI impI)
  let ?s' = "snd (clearProject s now pid)"
  assume le: "now \<le> tr"
  have "fst (getApiInternal ?s' tr pid aid) = None"
    unfolding getApiInternal_fst
    using clearProject_memory_own[OF le, where s=s and pid=pid and aid=aid]
      clearProject_disk_own[OF k, where now=now and pid=pid and aid=aid]
    by (auto simp: activeStore_def split: option.splits if_splits)
  then show "fst (getApi ?s' tr pid aid) = None"
    by (simp add: getApi_def)
next
  let ?s' = "snd (clearProject s now pid)"
  assume a: "p \<noteq> pid \<and> CHR '':'' \<notin> set p"
  have m: "map_of (lru_items (memoryCache ?s')) (getApiKey p aid) =
           map_of (lru_items (memoryCache s)) (getApiKey p aid)"
    using a by (simp add: clearProject_memory_other)
  have st: "lru_isStale (memoryCache ?s') tr x = lru_isStale (memoryCache s) tr x" for x
    by (simp add: lru_isStale_def clearProject_fields)
  have ex: "isExpired ?s' tr e = isExpired s tr e" for e
    by (simp add: isExpired_def clearProject_fields)
  have d: "(case activeStore ?s' of None \<Rightarrow> None
            | Some cache \<Rightarrow> (case map_of (apis cache) (getApiKey p aid) of None \<Rightarrow> None
                | Some e \<Rightarrow> if isExpired s tr e then None else Some (e, Disk))) =
           (case activeStore s of None \<Rightarrow> None
            | Some cache \<Rightarrow> (case map_of (apis cache) (getApiKey p aid) of None \<Rightarrow> None
                | Some e \<Rightarrow> if isExpired s tr e then None else Some (e, Disk)))"
    using clearProject_disk_other[OF k, where p=p and pid=pid and now=now and aid=aid] a
    by (cases "activeStore ?s'"; cases "activeStore s") auto
  have "fst (getApiInternal ?s' tr p aid) = fst (getApiInternal s tr p aid)"
    unfolding getApiInternal_fst m st ex d ..
  then show "fst (getApi ?s' tr p aid) = fst (getApi s tr p aid)"
    by (simp add: getApi_def clearProject_fields)
next
  let ?s' = "snd (clearProject s now pid)"
  assume h: "keyed s \<and> list_all (\<lambda>(k, e). projectId (metadata e) \<noteq> pid) (immediates s) \<and>
          ascending now ops tr \<and> list_all (\<lambda>(t, op). \<not> storesProject pid op) ops"
  have c: "cleared pid now ?s'" using h by (intro cleared_clearProject_self) simp_all
  have k': "keyed ?s'" using h by (simp add: keyed_clearProject)
  have "cleared pid tr (run H ?s' ops) \<and> keyed (run H ?s' ops)"
    using h by (intro cleared_run[OF c k']) simp_all
  then show "fst (getApi (run H ?s' ops) tr pid aid) = None"
    by (simp add: cleared_getApi)
qed

lemma ex_key_other: "getApiKey ''2'' 5 = ''api:2:5''"
  by code_simp

lemma ex_new_two: "CacheService_new ex_options_on (Some ex_disk_two) 1050 = Inr ex_state_two"
  by (simp add: CacheService_new_def ex_options_on_def ex_state_two_def ex_state_loaded_def
      ex_disk_two_def orDefault_def Let_def loadFromDisk_def isExpired_def ex_entry_def
      ex_entry_other_def lru_new_def lru_size_def lru_set_def lru_start_def)

theorem clearProject_clears_one_project_witness:
  "CacheService_new ex_options_on (Some ex_disk_two) 1050 = Inr ex_state_two \<and>
   keyedStore ex_state_two \<and> (1051 :: int) \<le> 1052 \<and> ''2'' \<noteq> ''1'' \<and> CHR '':'' \<notin> set ''2'' \<and>
   fst (getApi ex_state_two 1052 ''1'' 7) = Some (ex_entry, Memory) \<and>
   fst (getApi (snd (clearProject ex_state_two 1051 ''1'')) 1052 ''1'' 7) = None \<and>
   fst (getApi ex_state_two 1052 ''2'' 5) = Some (ex_entry_other, Disk) \<and>
   fst (getApi (snd (clearProject ex_state_two 1051 ''1'')) 1052 ''2'' 5) = Some (ex_entry_other, Disk) \<and>
   keyed ex_state_two \<and>
   list_all (\<lambda>(k, e). projectId (metadata e) \<noteq> ''1'') (immediates ex_state_two) \<and>
   ascending 1051 ex_ops 1056 \<and>
   list_all (\<lambda>(t, op). \<not> storesProject ''1'' op) ex_ops \<and>
   fst (getApi (run id (snd (clearProject ex_state_two 1051 ''1'')) ex_ops) 1056 ''1'' 7) = None"
proof -
  have k: "keyedStore ex_state_two"
    using ex_key ex_key_other
    by (simp add: keyedStore_def ex_state_two_def ex_disk_two_def ex_entry_def ex_entry_other_def)
  have kk: "keyed ex_state_two"
    using k ex_key
    by (simp add: keyed_def keyedMem_def ex_state_two_def ex_state_loaded_def ex_entry_def)
  have i: "list_all (\<lambda>(k, e). projectId (metadata e) \<noteq> ''1'') (immediates ex_state_two)"
    by (simp add: ex_state_two_def ex_state_loaded_def)
  have a: "ascending 1051 ex_ops 1056" by (simp add: ex_ops_def)
  have n: "list_all (\<lambda>(t, op). \<not> storesProject ''1'' op) ex_ops"
    by (simp add: ex_ops_def storesProject_def ex_entry_other_def)
  have b1: "fst (getApi ex_state_two 1052 ''1'' 7) = Some (ex_entry, Memory)"
    by (simp add: getApi_def getApiInternal_fst ex_key ex_state_two_def ex_state_loaded_def
        lru_isStale_def isExpired_def ex_entry_def)
  have b2: "fst (getApi ex_state_two 1052 ''2'' 5) = Some (ex_entry_other, Disk)"
    by (simp add: getApi_def getApiInternal_fst ex_key_other ex_state_two_def ex_state_loaded_def
        ex_disk_two_def activeStore_def isExpired_def ex_entry_other_def)
  have a1: "fst (getApi (snd (clearProject ex_state_two 1051 ''1'')) 1052 ''1'' 7) = None"
    using clearProject_clears_one_project[OF k, where now=1051 and tr=1052 and pid="''1''" and aid=7]
    by simp
  have a2: "fst (getApi (snd (clearProject ex_state_two 1051 ''1'')) 1052 ''2'' 5)
              = fst (getApi ex_state_two 1052 ''2'' 5)"
    using clearProject_clears_one_project[OF k, where now=1051 and tr=1052 and pid="''1''"
        and p="''2''" and aid=5]
    by simp
  have a3: "fst (getApi (run id (snd (clearProject ex_state_two 1051 ''1'')) ex_ops) 1056 ''1'' 7) = None"
    using clearProject_clears_one_project[OF k, where now=1051 and tr=1056 and pid="''1''"
        and aid=7 and ops=ex_ops and H=id] kk i a n
    by blast
  show ?thesis using ex_new_two k kk i a n b1 b2 a1 a2 a3 by simp
qed

lemma ex_colon_key: "getApiKey ''1:2'' 3 = ''api:1:2:3''"
  by code_simp

lemma ex_after_setApi_colon:
  "setApi id ex_state_mem 1000 ex_entry_colon =
     ex_state_mem\<lparr>
       memoryCache := \<lparr>lru_max = 2, lru_ttl = 100, lru_items = [(''api:1:2:3'', ex_entry_colon, 1000)]\<rparr>,
       dirtyKeys := [''api:1:2:3''],
       nameIndex := \<lparr>lru_max = 4, lru_ttl = 100,
                     lru_items = [(getNameKey ''1:2'' ''Ping'', ApiIndexEntry ''1:2'' 3, 1000)]\<rparr>,
       pathIndex := \<lparr>lru_max = 4, lru_ttl = 100,
                     lru_items = [(getPathKey ''1:2'' ''get'' ''/ping'', ApiIndexEntry ''1:2'' 3, 1000)]\<rparr>\<rparr>"
  using ex_colon_key
  by (simp add: ex_state_mem_def ex_state_off_def ex_entry_colon_def setApi_def Let_def
      lru_new_def lru_set_def lru_start_def activeStore_def hasUrl_def set_add_def)

lemma ex_pending_write:
  "runImmediate id (snd (clearProject (setApi id ex_state_fresh 1000 ex_entry) 1001 ''1'')) DiskOk =
     ex_state_fresh\<lparr>persistentStore := Some ex_disk\<rparr>"
  unfolding ex_after_setApi_fresh
  using ex_keys ex_key
  by (simp add: ex_state_fresh_def ex_state_synced_def ex_state_loaded_def ex_disk_def ex_entry_def
      emptyCacheData_def clearProject_def runImmediate_def syncToDisk_def syncIndexesToDisk_def
      Let_def lru_keys_def lru_entries_def lru_isStale_def startsWith_def lru_delete_def
      lru_remove_def lru_clear_def lru_new_def hasUrl_def)

text \<open>
  The claim C7 as it was stated speaks of every project id and of every later
  read. The memory tier is cleared by the key prefix \<open>api:<pid>:\<close>, and the key
  of an entry of project \<open>1:2\<close> starts with the prefix of project \<open>1\<close>:
  \<open>clearProject("1")\<close> deletes that entry, counts it, and the entry, which was
  retrievable and has not expired, is retrievable no more. And when the
  deferred write of an entry of project \<open>1\<close> is still pending at the time of
  \<open>clearProject("1")\<close>, it puts the entry back on disk afterwards, and a later
  \<open>getApi\<close> of project \<open>1\<close> returns it.
\<close>

theorem clearProject_prefix_and_pending_write_counterexample:
  "CacheService_new ex_options_mem None 1000 = Inr ex_state_mem \<and>
   projectId (metadata ex_entry_colon) = ''1:2'' \<and>
   fst (getApi (setApi id ex_state_mem 1000 ex_entry_colon) 1001 ''1:2'' 3) = Some (ex_entry_colon, Memory) \<and>
   \<not> isExpired ex_state_mem 1002 ex_entry_colon \<and>
   fst (clearProject (setApi id ex_state_mem 1000 ex_entry_colon) 1001 ''1'') = 1 \<and>
   fst (getApi (snd (clearProject (setApi id ex_state_mem 1000 ex_entry_colon) 1001 ''1'')) 1002 ''1:2'' 3)
     = None \<and>
   CacheService_new ex_options_on (Some emptyCacheData) 1000 = Inr ex_state_fresh \<and>
   fst (getApi (runImmediate id (snd (clearProject (setApi id ex_state_fresh 1000 ex_entry) 1001 ''1''))
                  DiskOk) 1002 ''1'' 7) = Some (ex_entry, Disk)"
proof -
  have a: "fst (getApi (setApi id ex_state_mem 1000 ex_entry_colon) 1001 ''1:2'' 3)
             = Some (ex_entry_colon, Memory)"
    unfolding ex_after_setApi_colon
    by (simp add: ex_colon_key ex_state_mem_def ex_state_off_def getApi_def getApiInternal_def
        Let_def lru_get_def lru_isStale_def isExpired_def hit_memory_def)
       (simp add: ex_entry_colon_def)
  have c: "clearProject (setApi id ex_state_mem 1000 ex_entry_colon) 1001 ''1'' =
      (1, ex_state_mem\<lparr>
       memoryCache := \<lparr>lru_max = 2, lru_ttl = 100, lru_items = []\<rparr>,
       dirtyKeys := [''api:1:2:3''],
       nameIndex := \<lparr>lru_max = 4, lru_ttl = 100, lru_items = []\<rparr>,
       pathIndex := \<lparr>lru_max = 4, lru_ttl = 100, lru_items = []\<rparr>\<rparr>)"
    unfolding ex_after_setApi_colon
    by (simp add: ex_state_mem_def ex_state_off_def clearProject_def Let_def lru_keys_def
        lru_entries_def lru_isStale_def startsWith_def lru_delete_def lru_remove_def lru_clear_def
        lru_new_def)
  have b: "fst (getApi (snd (clearProject (setApi id ex_state_mem 1000 ex_entry_colon) 1001 ''1''))
             1002 ''1:2'' 3) = None"
    unfolding c
    by (simp add: ex_colon_key ex_state_mem_def ex_state_off_def getApi_def getApiInternal_def
        Let_def lru_get_def activeStore_def miss_memory_def)
  have x: "\<not> isExpired ex_state_mem 1002 ex_entry_colon"
    by (simp add: isExpired_def ex_state_mem_def ex_state_off_def ex_entry_colon_def)
  have w: "fst (getApi (runImmediate id (snd (clearProject (setApi id ex_state_fresh 1000 ex_entry) 1001 ''1''))
                  DiskOk) 1002 ''1'' 7) = Some (ex_entry, Disk)"
    unfolding ex_pending_write
    by (simp add: getApi_def getApiInternal_fst ex_key ex_state_fresh_def ex_state_loaded_def
        ex_disk_def lru_new_def activeStore_def isExpired_def ex_entry_def)
  show ?thesis using a b x w ex_new_mem ex_new_fresh by (simp add: c) (simp add: ex_entry_colon_def)
qed

end
